theory Spec2Isabelle
  imports Complex_Main "HOL-Library.Word"
begin

chapter \<open>The streamed-response post-processing pipeline of ZewailAI\<close>

text \<open>
  A shallow embedding of \<^verbatim>\<open>src/utils/citationProcessor.ts\<close> (the citation injector
  \<^verbatim>\<open>processCitedContent\<close>, the table extractor \<^verbatim>\<open>extractAndParseMarkdownTable\<close> with its
  helpers \<^verbatim>\<open>parseRow\<close>, \<^verbatim>\<open>isSeparatorLine\<close> and \<^verbatim>\<open>_internalParseMarkdownForTable\<close>) and of
  the source-merging statements of \<^verbatim>\<open>handleSearch\<close>.
\<close>

section \<open>JavaScript strings\<close>

text \<open>
  A JavaScript string is a sequence of 16-bit UTF-16 code units; \<^verbatim>\<open>length\<close>,
  \<^verbatim>\<open>substring\<close>, \<^verbatim>\<open>split\<close> and the regular expressions of the source (none has the
  \<^verbatim>\<open>u\<close> flag) all count and compare code units.  \<open>js\<close> embeds an ASCII literal.
\<close>

type_synonym jschar = "16 word"
type_synonym jsstring = "jschar list"

definition js :: "string \<Rightarrow> jsstring" where
  "js s = map of_char s"

text \<open>
  A JavaScript number is a double: a finite value, an infinity or \<^verbatim>\<open>NaN\<close>.  The
  finite doubles are rationals, and \<open>Fin\<close> holds a rational (\<open>- 0\<close> is \<open>0\<close>: no
  statement of the source tells the two apart).  The comparisons are those of the
  language: every comparison with \<^verbatim>\<open>NaN\<close> is false.
\<close>

datatype jsnum = Fin rat | PosInf | NegInf | NaN

instantiation jsnum :: ord
begin

definition less_jsnum :: "jsnum \<Rightarrow> jsnum \<Rightarrow> bool" where
  "less_jsnum a b =
     (case a of
        Fin x \<Rightarrow> (case b of Fin y \<Rightarrow> x < y | PosInf \<Rightarrow> True | _ \<Rightarrow> False)
      | NegInf \<Rightarrow> (case b of Fin y \<Rightarrow> True | PosInf \<Rightarrow> True | _ \<Rightarrow> False)
      | _ \<Rightarrow> False)"

definition less_eq_jsnum :: "jsnum \<Rightarrow> jsnum \<Rightarrow> bool" where
  "less_eq_jsnum a b = (a < b \<or> (a = b \<and> a \<noteq> NaN))"

instance ..

end

text \<open>Truthiness of a number: \<open>0\<close> and \<^verbatim>\<open>NaN\<close> are falsy.\<close>

definition truthyNum :: "jsnum \<Rightarrow> bool" where
  "truthyNum n = (n \<noteq> NaN \<and> n \<noteq> Fin 0)"

text \<open>
  \<^verbatim>\<open>String.prototype.substring(start, end)\<close>: each argument is made an integer
  (\<^verbatim>\<open>NaN\<close> becomes \<open>0\<close>, a fraction is truncated) and clamped to \<open>[0, length]\<close>, and
  the two are swapped when \<open>start > end\<close>; with one argument the end is the length.
\<close>

definition clampIndex :: "jsstring \<Rightarrow> jsnum \<Rightarrow> nat" where
  "clampIndex s i =
     (case i of
        NaN \<Rightarrow> 0
      | NegInf \<Rightarrow> 0
      | PosInf \<Rightarrow> length s
      | Fin q \<Rightarrow> if q < 0 then 0 else min (nat \<lfloor>q\<rfloor>) (length s))"

definition substring :: "jsstring \<Rightarrow> jsnum \<Rightarrow> jsnum \<Rightarrow> jsstring" where
  "substring s a b =
     (let a' = clampIndex s a; b' = clampIndex s b;
          from = min a' b'; to = max a' b'
      in take (to - from) (drop from s))"

definition substringFrom :: "jsstring \<Rightarrow> jsnum \<Rightarrow> jsstring" where
  "substringFrom s a = drop (clampIndex s a) s"

text \<open>The decimal digits of a natural number, as a template literal prints it.\<close>

definition digitChar :: "nat \<Rightarrow> jschar" where
  "digitChar d = of_nat (48 + d)"

function decimal :: "nat \<Rightarrow> jsstring" where
  "decimal n = (if n < 10 then [digitChar n] else decimal (n div 10) @ [digitChar (n mod 10)])"
  by pat_completeness auto
termination
  by (relation "measure id") auto

declare decimal.simps [simp del]

text \<open>
  \<^verbatim>\<open>trim()\<close> removes the WhiteSpace and LineTerminator code units from both ends;
  the class \<^verbatim>\<open>\s\<close> of a regular expression is the same set.
\<close>

definition isWhitespace :: "jschar \<Rightarrow> bool" where
  "isWhitespace c =
     (c \<in> set [0x0009, 0x000A, 0x000B, 0x000C, 0x000D, 0x0020, 0x00A0, 0x1680,
               0x2028, 0x2029, 0x202F, 0x205F, 0x3000, 0xFEFF]
      \<or> (0x2000 \<le> c \<and> c \<le> 0x200A))"

definition trim :: "jsstring \<Rightarrow> jsstring" where
  "trim s = rev (dropWhile isWhitespace (rev (dropWhile isWhitespace s)))"

text \<open>
  \<^verbatim>\<open>split(sep)\<close> for a one-character separator (the empty string splits into one
  empty segment), \<^verbatim>\<open>join(sep)\<close> and \<^verbatim>\<open>includes(c)\<close> for a one-character argument.
\<close>

fun split_str :: "jschar \<Rightarrow> jsstring \<Rightarrow> jsstring list" where
  "split_str sep [] = [[]]"
| "split_str sep (x # xs) =
     (if x = sep then [] # split_str sep xs
      else (case split_str sep xs of
              [] \<Rightarrow> [[x]]
            | seg # segs \<Rightarrow> (x # seg) # segs))"

fun join :: "jsstring \<Rightarrow> jsstring list \<Rightarrow> jsstring" where
  "join sep [] = []"
| "join sep [x] = x"
| "join sep (x # y # ys) = x @ sep @ join sep (y # ys)"

definition str_includes :: "jschar \<Rightarrow> jsstring \<Rightarrow> bool" where
  "str_includes c s = (c \<in> set s)"

text \<open>
  \<^verbatim>\<open>s.replace(pattern, replacement)\<close> for a string pattern: the first occurrence of
  the pattern is replaced (the replacements of the source contain no \<^verbatim>\<open>$\<close>).
\<close>

fun replaceFirst :: "jsstring \<Rightarrow> jsstring \<Rightarrow> jsstring \<Rightarrow> jsstring" where
  "replaceFirst pat rep [] = (if pat = [] then rep else [])"
| "replaceFirst pat rep (x # xs) =
     (if take (length pat) (x # xs) = pat then rep @ drop (length pat) (x # xs)
      else x # replaceFirst pat rep xs)"

definition pipe :: jschar where "pipe = 0x7C"
definition dash :: jschar where "dash = 0x2D"
definition colon :: jschar where "colon = 0x3A"
definition newline :: jschar where "newline = 0x0A"
definition backtick :: jschar where "backtick = 0x60"

section \<open>The citation injector\<close>

text \<open>
  \<^verbatim>\<open>types.ts\<close>: \<^verbatim>\<open>Source = { title, uri }\<close> and
  \<^verbatim>\<open>Citation = { startIndex?, endIndex?, uri, license? }\<close>.  An optional field is an
  \<open>option\<close>; a numeric field holds any number, \<^verbatim>\<open>NaN\<close> included (the test
  \<^verbatim>\<open>typeof c.startIndex === 'number'\<close> lets it pass).  The citation's \<^verbatim>\<open>uri\<close> is the
  field \<open>cite_uri\<close> (two records cannot share a field name).
\<close>

record source =
  title :: jsstring
  uri :: jsstring

record citation =
  startIndex :: "jsnum option"
  endIndex :: "jsnum option"
  cite_uri :: jsstring
  license :: "jsstring option"

text \<open>
  A citation that passed both filters: \<^verbatim>\<open>{ ...citation, sourceIndex, sourceTitle }\<close>,
  with \<^verbatim>\<open>startIndex\<close> narrowed to a number by the type guard of the first filter.
\<close>

record processedCitation =
  pc_startIndex :: jsnum
  pc_endIndex :: "jsnum option"
  pc_uri :: jsstring
  pc_license :: "jsstring option"
  sourceIndex :: nat
  sourceTitle :: jsstring

text \<open>
  \<^verbatim>\<open>new Map(sources.map((source, index) => [source.uri, { index, title }]))\<close>: the
  entries are set in order, so a later source with the same uri overwrites an earlier one.
\<close>

definition uriToSourceData :: "source list \<Rightarrow> (jsstring \<rightharpoonup> nat \<times> jsstring)" where
  "uriToSourceData sources =
     fold (\<lambda>(index, source) m. m(uri source \<mapsto> (index, title source)))
          (enumerate 0 sources) Map.empty"

text \<open>The body of the \<^verbatim>\<open>.map\<close> callback: \<open>None\<close> is its \<^verbatim>\<open>null\<close>.\<close>

definition attachSource :: "source list \<Rightarrow> citation \<Rightarrow> processedCitation option" where
  "attachSource sources c =
     (case startIndex c of
        None \<Rightarrow> None
      | Some st \<Rightarrow>
         (case uriToSourceData sources (cite_uri c) of
            None \<Rightarrow> None
          | Some (idx, ttl) \<Rightarrow>
              Some \<lparr>pc_startIndex = st, pc_endIndex = endIndex c, pc_uri = cite_uri c,
                    pc_license = license c, sourceIndex = idx, sourceTitle = ttl\<rparr>))"

text \<open>
  The comparator \<^verbatim>\<open>(a, b) => a.startIndex - b.startIndex\<close>, as the sort reads it: the
  sign of the difference, and \<open>0\<close> when the difference is \<^verbatim>\<open>NaN\<close> (an operand is
  \<^verbatim>\<open>NaN\<close>, or both are the same infinity).  The difference of two doubles is negative
  exactly when the first is less than the second, with or without rounding.
\<close>

definition compareStart :: "processedCitation \<Rightarrow> processedCitation \<Rightarrow> int" where
  "compareStart a b =
     (if pc_startIndex a < pc_startIndex b then - 1
      else if pc_startIndex b < pc_startIndex a then 1
      else 0)"

text \<open>
  \<^verbatim>\<open>Array.prototype.sort\<close> is stable: elements that compare equal keep their order.
  Where the comparator is consistent the result is the one of this insertion sort.  When
  a \<^verbatim>\<open>NaN\<close> stands among different start indices the comparator is not consistent
  and the language leaves the order to the implementation; the model then has the order
  of the insertion sort, and no theorem below depends on the order in that case.
\<close>

fun insertSorted :: "('a \<Rightarrow> 'a \<Rightarrow> int) \<Rightarrow> 'a \<Rightarrow> 'a list \<Rightarrow> 'a list" where
  "insertSorted cmp x [] = [x]"
| "insertSorted cmp x (y # ys) =
     (if cmp x y \<le> 0 then x # y # ys else y # insertSorted cmp x ys)"

definition sortWith :: "('a \<Rightarrow> 'a \<Rightarrow> int) \<Rightarrow> 'a list \<Rightarrow> 'a list" where
  "sortWith cmp xs = foldr (insertSorted cmp) xs []"

text \<open>
  \<^verbatim>\<open>citations.filter(typeof startIndex === 'number').map(...).filter(c !== null).sort(...)\<close>.
\<close>

definition processedCitations :: "citation list \<Rightarrow> source list \<Rightarrow> processedCitation list" where
  "processedCitations citations sources =
     sortWith compareStart
       (map the
          (filter (\<lambda>p. p \<noteq> None)
             (map (attachSource sources)
                (filter (\<lambda>c. startIndex c \<noteq> None) citations))))"

text \<open>The marker \<^verbatim>\<open>`[${citationNumber}](#citation-${citation.sourceIndex})`\<close>.\<close>

definition citationMarkdownLink :: "nat \<Rightarrow> jsstring" where
  "citationMarkdownLink idx =
     js ''['' @ decimal (idx + 1) @ js ''](#citation-'' @ decimal idx @ js '')''"

text \<open>The state of the \<^verbatim>\<open>for\<close> loop: the pieces pushed so far and the cursor.\<close>

record walk =
  resultParts :: "jsstring list"
  lastIndex :: jsnum

definition walkStart :: walk where
  "walkStart = \<lparr>resultParts = [], lastIndex = Fin 0\<rparr>"

text \<open>
  \<^verbatim>\<open>citation.endIndex || citation.startIndex\<close>: the left operand is taken when it is
  truthy, that is, present and neither \<open>0\<close> nor \<^verbatim>\<open>NaN\<close>.
\<close>

definition insertionPoint :: "processedCitation \<Rightarrow> jsnum" where
  "insertionPoint c =
     (case pc_endIndex c of
        None \<Rightarrow> pc_startIndex c
      | Some e \<Rightarrow> if truthyNum e then e else pc_startIndex c)"

text \<open>One iteration of the loop; \<^verbatim>\<open>continue\<close> leaves the state as it is.\<close>

definition walkStep :: "jsstring \<Rightarrow> walk \<Rightarrow> processedCitation \<Rightarrow> walk" where
  "walkStep content st c =
     (let ip = insertionPoint c
      in if ip < lastIndex st then st
         else \<lparr>resultParts = resultParts st @
                   [substring content (lastIndex st) ip, citationMarkdownLink (sourceIndex c)],
               lastIndex = ip\<rparr>)"

text \<open>
  \<^verbatim>\<open>processCitedContent(content, citations, sources)\<close>; \<open>None\<close> is \<^verbatim>\<open>null\<close> or
  \<^verbatim>\<open>undefined\<close>.  No statement of the function can throw on arguments of the declared
  types, so the model is a total function returning the string.
\<close>

definition processCitedContent ::
  "jsstring \<Rightarrow> citation list option \<Rightarrow> source list option \<Rightarrow> jsstring" where
  "processCitedContent content citations sources =
     (case citations of
        None \<Rightarrow> content
      | Some cs \<Rightarrow>
         (case sources of
            None \<Rightarrow> content
          | Some ss \<Rightarrow>
              if cs = [] \<or> ss = [] then content
              else
                (let pcs = processedCitations cs ss
                 in if pcs = [] then content
                    else
                      (let st = foldl (walkStep content) walkStart pcs
                       in concat (resultParts st @ [substringFrom content (lastIndex st)])))))"

text \<open>
  The citations that pass both filters (a numeric \<^verbatim>\<open>startIndex\<close> and a uri that
  some source has), and a text with markers inserted between its segments.
\<close>

definition survives :: "source list \<Rightarrow> citation \<Rightarrow> bool" where
  "survives sources c = (startIndex c \<noteq> None \<and> cite_uri c \<in> set (map uri sources))"

definition survivors :: "citation list option \<Rightarrow> source list option \<Rightarrow> citation list" where
  "survivors citations sources =
     (case citations of
        None \<Rightarrow> []
      | Some cs \<Rightarrow> (case sources of None \<Rightarrow> [] | Some ss \<Rightarrow> filter (survives ss) cs))"

text \<open>
  A citation whose insertion point is \<^verbatim>\<open>NaN\<close>: its start index is \<^verbatim>\<open>NaN\<close> and its
  end index is missing or falsy.
\<close>

definition nanInsertion :: "citation \<Rightarrow> bool" where
  "nanInsertion c =
     (startIndex c = Some NaN
      \<and> (case endIndex c of None \<Rightarrow> True | Some e \<Rightarrow> e = NaN \<or> e = Fin 0))"

fun interleave :: "jsstring list \<Rightarrow> jsstring list \<Rightarrow> jsstring" where
  "interleave (s # segs) (m # ms) = s @ m @ interleave segs ms"
| "interleave segs [] = concat segs"
| "interleave [] ms = concat ms"

section \<open>Regular expressions\<close>

text \<open>
  The regular expressions of the source, as data, with the backtracking semantics of
  ECMAScript: \<open>ms r c\<close> lists the configurations in which a match of \<open>r\<close> started in
  configuration \<open>c\<close> can end, in the order in which backtracking tries them (the first
  alternative first, a greedy repetition longest first, a lazy one shortest first).  An
  iteration of a repetition that consumes nothing is rejected, as the specification of
  the language has it.  A configuration is the position in the input, the input that is
  left, and the span of capture group 1.
\<close>

datatype rx =
    Eps
  | Chr jschar
  | Cls "jschar \<Rightarrow> bool"
  | Seq rx rx
  | Alt rx rx
  | Opt rx
  | Star rx
  | LazyStar rx
  | Grp rx
  | Bol
  | Eol

record cfg =
  pos :: nat
  rest :: jsstring
  capture :: "(nat \<times> nat) option"

function ms :: "rx \<Rightarrow> cfg \<Rightarrow> cfg list" where
  "ms Eps c = [c]"
| "ms (Chr a) c =
     (case rest c of
        [] \<Rightarrow> []
      | x # xs \<Rightarrow> if x = a then [c\<lparr>pos := Suc (pos c), rest := xs\<rparr>] else [])"
| "ms (Cls p) c =
     (case rest c of
        [] \<Rightarrow> []
      | x # xs \<Rightarrow> if p x then [c\<lparr>pos := Suc (pos c), rest := xs\<rparr>] else [])"
| "ms (Seq r1 r2) c = concat (map (ms r2) (ms r1 c))"
| "ms (Alt r1 r2) c = ms r1 c @ ms r2 c"
| "ms (Opt r) c = ms r c @ [c]"
| "ms (Star r) c =
     concat (map (\<lambda>c'. if length (rest c') < length (rest c) then ms (Star r) c' else [])
                 (ms r c)) @ [c]"
| "ms (LazyStar r) c =
     c # concat (map (\<lambda>c'. if length (rest c') < length (rest c) then ms (LazyStar r) c' else [])
                     (ms r c))"
| "ms (Grp r) c = map (\<lambda>c'. c'\<lparr>capture := Some (pos c, pos c')\<rparr>) (ms r c)"
| "ms Bol c = (if pos c = 0 then [c] else [])"
| "ms Eol c = (if rest c = [] then [c] else [])"
  by pat_completeness auto
termination
  by (relation "measures [\<lambda>(r, c). size r, \<lambda>(r, c). length (rest c)]") auto

declare ms.simps [simp del]

lemmas ms_basic = ms.simps(1-6) ms.simps(9-11)

text \<open>The first way to match at a position, if there is one.\<close>

definition matchAt :: "rx \<Rightarrow> nat \<Rightarrow> jsstring \<Rightarrow> cfg option" where
  "matchAt r n s =
     (case ms r \<lparr>pos = n, rest = s, capture = None\<rparr> of [] \<Rightarrow> None | e # _ \<Rightarrow> Some e)"

text \<open>
  A search without the \<^verbatim>\<open>g\<close> flag tries the start positions from left to right, the
  end of the input included; the result is the start position and the final
  configuration.
\<close>

fun search :: "rx \<Rightarrow> nat \<Rightarrow> jsstring \<Rightarrow> (nat \<times> cfg) option" where
  "search r n [] = (case matchAt r n [] of None \<Rightarrow> None | Some e \<Rightarrow> Some (n, e))"
| "search r n (x # xs) =
     (case matchAt r n (x # xs) of None \<Rightarrow> search r (Suc n) xs | Some e \<Rightarrow> Some (n, e))"

text \<open>\<^verbatim>\<open>regex.test(s)\<close>.\<close>

definition test :: "rx \<Rightarrow> jsstring \<Rightarrow> bool" where
  "test r s = (search r 0 s \<noteq> None)"

text \<open>
  \<^verbatim>\<open>s.match(regex)\<close> without the \<^verbatim>\<open>g\<close> flag: \<^verbatim>\<open>null\<close>, or the matched text
  (index 0) and the text of capture group 1 (index 1, \<^verbatim>\<open>undefined\<close> when the group
  took no part).
\<close>

definition sliceStr :: "jsstring \<Rightarrow> nat \<Rightarrow> nat \<Rightarrow> jsstring" where
  "sliceStr s a b = take (b - a) (drop a s)"

definition stringMatch :: "rx \<Rightarrow> jsstring \<Rightarrow> (jsstring \<times> jsstring option) option" where
  "stringMatch r s =
     (case search r 0 s of
        None \<Rightarrow> None
      | Some (start, e) \<Rightarrow>
          Some (sliceStr s start (pos e),
                (case capture e of None \<Rightarrow> None | Some (a, b) \<Rightarrow> Some (sliceStr s a b))))"

text \<open>
  \<^verbatim>\<open>s.replace(regex, rep)\<close> with the \<^verbatim>\<open>g\<close> flag, from position \<open>n\<close> on: every match
  is replaced; after an empty match the next character is copied and the search goes on
  behind it.
\<close>

function replaceAll :: "rx \<Rightarrow> jsstring \<Rightarrow> nat \<Rightarrow> jsstring \<Rightarrow> jsstring" where
  "replaceAll r rep n s =
     (case matchAt r n s of
        None \<Rightarrow> (case s of [] \<Rightarrow> [] | x # xs \<Rightarrow> x # replaceAll r rep (Suc n) xs)
      | Some e \<Rightarrow>
          if length (rest e) < length s then rep @ replaceAll r rep (pos e) (rest e)
          else rep @ (case s of [] \<Rightarrow> [] | x # xs \<Rightarrow> x # replaceAll r rep (Suc n) xs))"
  by pat_completeness auto
termination
  by (relation "measure (\<lambda>(r, rep, n, s). length s)") auto

declare replaceAll.simps [simp del]

text \<open>The four regular expressions of the source.\<close>

definition rxEdgePipes :: rx where
  \<comment> \<open>\<^verbatim>\<open>/^\||\|$/g\<close>\<close>
  "rxEdgePipes = Alt (Seq Bol (Chr pipe)) (Seq (Chr pipe) Eol)"

definition rxEdgePipesWs :: rx where
  \<comment> \<open>\<^verbatim>\<open>/^\s*\||\|\s*$/g\<close>\<close>
  "rxEdgePipesWs =
     Alt (Seq Bol (Seq (Star (Cls isWhitespace)) (Chr pipe)))
         (Seq (Chr pipe) (Seq (Star (Cls isWhitespace)) Eol))"

definition rxSeparatorSegment :: rx where
  \<comment> \<open>\<^verbatim>\<open>/^\s*:?-+:?\s*$/\<close>; \<^verbatim>\<open>-+\<close> is one dash and then \<^verbatim>\<open>-*\<close>\<close>
  "rxSeparatorSegment =
     Seq Bol (Seq (Star (Cls isWhitespace)) (Seq (Opt (Chr colon))
       (Seq (Seq (Chr dash) (Star (Chr dash))) (Seq (Opt (Chr colon))
         (Seq (Star (Cls isWhitespace)) Eol)))))"

definition rxFence :: rx where
  "rxFence = Seq (Chr backtick) (Seq (Chr backtick) (Chr backtick))"

definition rxJsonBlock :: rx where
  \<comment> \<open>\<^verbatim>\<open>/```(?:json)?\s*([\s\S]*?)\s*```/\<close>\<close>
  "rxJsonBlock =
     Seq rxFence
       (Seq (Opt (Seq (Chr 0x6A) (Seq (Chr 0x73) (Seq (Chr 0x6F) (Chr 0x6E)))))
         (Seq (Star (Cls isWhitespace))
           (Seq (Grp (LazyStar (Cls (\<lambda>c. True))))
             (Seq (Star (Cls isWhitespace)) rxFence))))"

section \<open>The grid scanner\<close>

text \<open>
  \<^verbatim>\<open>parseRow\<close> and \<^verbatim>\<open>isSeparatorLine\<close>.  Their \<^verbatim>\<open>typeof ... !== 'string'\<close> guards
  are for arguments that the parameter type excludes.
\<close>

definition parseRow :: "jsstring \<Rightarrow> jsstring list" where
  "parseRow rowString =
     (let cleanedRow = trim (replaceAll rxEdgePipes [] 0 (trim rowString))
      in map trim (split_str pipe cleanedRow))"

definition isSeparatorLine :: "jsstring \<Rightarrow> bool" where
  "isSeparatorLine line =
     (let trimmedLine = trim line
      in if \<not> str_includes dash trimmedLine \<or> \<not> str_includes pipe trimmedLine then False
         else
           (let segments = split_str pipe (replaceAll rxEdgePipes [] 0 trimmedLine)
            in length segments > 0 \<and> list_all (test rxSeparatorSegment) segments))"

text \<open>
  The variables of \<^verbatim>\<open>_internalParseMarkdownForTable\<close> that its loops assign; \<open>- 1\<close> is
  the "not found" index, as in the source.
\<close>

record scan =
  tableStartIndex :: int
  tableEndIndex :: int
  headers :: "jsstring list"
  rowsData :: "jsstring list list"

text \<open>The inner loop, from row index \<open>j\<close> on; \<^verbatim>\<open>break\<close> returns the state.\<close>

function collectRows :: "jsstring list \<Rightarrow> nat \<Rightarrow> scan \<Rightarrow> scan" where
  "collectRows lines j st =
     (if j < length lines then
        (let rowLine = lines ! j
         in if \<not> str_includes pipe rowLine then st
            else
              (let row = parseRow rowLine
               in if length row \<noteq> length (headers st) then st
                  else collectRows lines (Suc j)
                         (st\<lparr>rowsData := rowsData st @ [row], tableEndIndex := int j\<rparr>)))
      else st)"
  by pat_completeness auto
termination
  by (relation "measure (\<lambda>(lines, j, st). length lines - j)") auto

declare collectRows.simps [simp del]

text \<open>
  The outer loop, from line index \<open>i\<close> on: \<^verbatim>\<open>for (let i = 0; i < lines.length - 1; i++)\<close>.
  It ends at the first header and separator pair that fit, whatever the inner loop
  collects.
\<close>

function scanFrom :: "jsstring list \<Rightarrow> nat \<Rightarrow> scan" where
  "scanFrom lines i =
     (if int i < int (length lines) - 1 then
        (let potentialHeaderLine = lines ! i;
             potentialSeparatorLine = lines ! (i + 1)
         in if isSeparatorLine potentialSeparatorLine then
              (let potentialHeaders = parseRow potentialHeaderLine;
                   separatorCols =
                     split_str pipe (replaceAll rxEdgePipesWs [] 0 potentialSeparatorLine)
               in if length potentialHeaders > 0
                     \<and> length potentialHeaders = length separatorCols then
                    collectRows lines (i + 2)
                      \<lparr>tableStartIndex = int i, tableEndIndex = int i + 1,
                       headers = potentialHeaders, rowsData = []\<rparr>
                  else scanFrom lines (Suc i))
            else scanFrom lines (Suc i))
      else \<lparr>tableStartIndex = - 1, tableEndIndex = - 1, headers = [], rowsData = []\<rparr>)"
  by pat_completeness auto
termination
  by (relation "measure (\<lambda>(lines, i). length lines - i)") auto

declare scanFrom.simps [simp del]

section \<open>JavaScript values and \<^verbatim>\<open>JSON.parse\<close>\<close>

text \<open>
  The values \<^verbatim>\<open>JSON.parse\<close> returns.  A number is kept as the decimal \<open>m * 10 ^ e\<close>
  that its literal denotes (the rounding to a double is not modelled; no statement of
  the source computes with a number).  An object is the list of its properties; the
  extractor's result for a grid table is an object of the same kind.
\<close>

datatype jsval =
    JNull
  | JBool bool
  | JNumber int int
  | JString jsstring
  | JArray "jsval list"
  | JObject "(jsstring \<times> jsval) list"

datatype js_error = SyntaxError | TypeError

text \<open>Setting a property: an existing key keeps its place and takes the new value.\<close>

fun setEntry :: "'k \<Rightarrow> 'v \<Rightarrow> ('k \<times> 'v) list \<Rightarrow> ('k \<times> 'v) list" where
  "setEntry k v [] = [(k, v)]"
| "setEntry k v (e # es) = (if fst e = k then (k, v) # es else e # setEntry k v es)"

definition jsonWs :: "jschar \<Rightarrow> bool" where
  "jsonWs c = (c = 0x20 \<or> c = 0x09 \<or> c = 0x0A \<or> c = 0x0D)"

definition skipWs :: "jsstring \<Rightarrow> jsstring" where
  "skipWs s = dropWhile jsonWs s"

definition isDigit :: "jschar \<Rightarrow> bool" where
  "isDigit c = (0x30 \<le> c \<and> c \<le> 0x39)"

definition digitVal :: "jschar \<Rightarrow> int" where
  "digitVal c = int (unat c) - 48"

definition digitsVal :: "jsstring \<Rightarrow> int" where
  "digitsVal ds = foldl (\<lambda>acc d. 10 * acc + digitVal d) 0 ds"

definition hexVal :: "jschar \<Rightarrow> nat option" where
  "hexVal c =
     (if 0x30 \<le> c \<and> c \<le> 0x39 then Some (unat c - 48)
      else if 0x41 \<le> c \<and> c \<le> 0x46 then Some (unat c - 55)
      else if 0x61 \<le> c \<and> c \<le> 0x66 then Some (unat c - 87)
      else None)"

definition escapeChar :: "jschar \<Rightarrow> jschar option" where
  "escapeChar c =
     (if c = 0x22 then Some 0x22
      else if c = 0x5C then Some 0x5C
      else if c = 0x2F then Some 0x2F
      else if c = 0x62 then Some 0x08
      else if c = 0x66 then Some 0x0C
      else if c = 0x6E then Some 0x0A
      else if c = 0x72 then Some 0x0D
      else if c = 0x74 then Some 0x09
      else None)"

definition consChar :: "jschar \<Rightarrow> (jsstring \<times> jsstring) option \<Rightarrow> (jsstring \<times> jsstring) option" where
  "consChar c r = (case r of None \<Rightarrow> None | Some (str, s) \<Rightarrow> Some (c # str, s))"

text \<open>
  A string literal behind its opening quote: the decoded string and the input behind
  the closing quote.
\<close>

fun parseStringBody :: "jsstring \<Rightarrow> (jsstring \<times> jsstring) option" where
  "parseStringBody [] = None"
| "parseStringBody (c # cs) =
     (if c = 0x22 then Some ([], cs)
      else if c = 0x5C then
        (case cs of
           [] \<Rightarrow> None
         | e # es \<Rightarrow>
             if e = 0x75 then
               (case es of
                  h1 # h2 # h3 # h4 # r \<Rightarrow>
                    (case (hexVal h1, hexVal h2, hexVal h3, hexVal h4) of
                       (Some a, Some b, Some c, Some d) \<Rightarrow>
                         consChar (of_nat (4096 * a + 256 * b + 16 * c + d)) (parseStringBody r)
                     | _ \<Rightarrow> None)
                | _ \<Rightarrow> None)
             else
               (case escapeChar e of
                  None \<Rightarrow> None
                | Some x \<Rightarrow> consChar x (parseStringBody es)))
      else if c < 0x20 then None
      else consChar c (parseStringBody cs))"

text \<open>
  A number literal: \<^verbatim>\<open>-? (0 | [1-9][0-9]*) (. [0-9]+)? ([eE] [+-]? [0-9]+)?\<close>.
\<close>

definition parseInt :: "jsstring \<Rightarrow> (jsstring \<times> jsstring) option" where
  "parseInt s =
     (case s of
        [] \<Rightarrow> None
      | c # cs \<Rightarrow>
          if c = 0x30 then Some ([c], cs)
          else if isDigit c then Some (takeWhile isDigit s, dropWhile isDigit s)
          else None)"

definition parseFrac :: "jsstring \<Rightarrow> (jsstring \<times> jsstring) option" where
  "parseFrac s =
     (case s of
        [] \<Rightarrow> Some ([], s)
      | c # cs \<Rightarrow>
          if c = 0x2E then
            (if takeWhile isDigit cs = [] then None
             else Some (takeWhile isDigit cs, dropWhile isDigit cs))
          else Some ([], s))"

definition parseExp :: "jsstring \<Rightarrow> (int \<times> jsstring) option" where
  "parseExp s =
     (case s of
        [] \<Rightarrow> Some (0, s)
      | c # cs \<Rightarrow>
          if c = 0x65 \<or> c = 0x45 then
            (let sgn = (case cs of [] \<Rightarrow> 1 | d # ds \<Rightarrow> if d = 0x2D then - 1 else 1);
                 body = (case cs of [] \<Rightarrow> [] | d # ds \<Rightarrow> if d = 0x2D \<or> d = 0x2B then ds else cs)
             in if takeWhile isDigit body = [] then None
                else Some (sgn * digitsVal (takeWhile isDigit body), dropWhile isDigit body))
          else Some (0, s))"

definition parseNumber :: "jsstring \<Rightarrow> (jsval \<times> jsstring) option" where
  "parseNumber s =
     (let sgn = (case s of [] \<Rightarrow> 1 | c # cs \<Rightarrow> if c = 0x2D then - 1 else 1);
          s1 = (case s of [] \<Rightarrow> [] | c # cs \<Rightarrow> if c = 0x2D then cs else s)
      in case parseInt s1 of
           None \<Rightarrow> None
         | Some (ip, s2) \<Rightarrow>
            (case parseFrac s2 of
               None \<Rightarrow> None
             | Some (fp, s3) \<Rightarrow>
                (case parseExp s3 of
                   None \<Rightarrow> None
                 | Some (ex, s4) \<Rightarrow>
                     Some (JNumber (sgn * digitsVal (ip @ fp)) (ex - int (length fp)), s4))))"

definition parseLiteral :: "jsstring \<Rightarrow> jsval \<Rightarrow> jsstring \<Rightarrow> (jsval \<times> jsstring) option" where
  "parseLiteral word v s =
     (if take (length word) s = word then Some (v, drop (length word) s) else None)"

text \<open>
  The values, by recursive descent; \<open>parseElements\<close> and \<open>parseMembers\<close> start at the
  first element or member that is left and carry the ones already read.  The guards on the
  lengths hold whenever they are reached (every parser returns a suffix of its input):
  they are the measure of the recursion.
\<close>

lemma dropWhile_Cons_shorter: "dropWhile P xs = y # ys \<Longrightarrow> length ys < length xs"
proof -
  assume a: "dropWhile P xs = y # ys"
  have "length (dropWhile P xs) \<le> length xs" by (rule length_dropWhile_le)
  then show ?thesis by (simp add: a)
qed

function parseValue :: "jsstring \<Rightarrow> (jsval \<times> jsstring) option"
  and parseElements :: "jsval list \<Rightarrow> jsstring \<Rightarrow> (jsval \<times> jsstring) option"
  and parseMembers :: "(jsstring \<times> jsval) list \<Rightarrow> jsstring \<Rightarrow> (jsval \<times> jsstring) option"
where
  "parseValue s =
     (case s of
        [] \<Rightarrow> None
      | c # cs \<Rightarrow>
          if c = 0x7B then
            (case skipWs cs of
               [] \<Rightarrow> None
             | d # ds \<Rightarrow> if d = 0x7D then Some (JObject [], ds) else parseMembers [] (skipWs cs))
          else if c = 0x5B then
            (case skipWs cs of
               [] \<Rightarrow> None
             | d # ds \<Rightarrow> if d = 0x5D then Some (JArray [], ds) else parseElements [] (skipWs cs))
          else if c = 0x22 then
            (case parseStringBody cs of None \<Rightarrow> None | Some (str, r) \<Rightarrow> Some (JString str, r))
          else if c = 0x74 then parseLiteral (js ''true'') (JBool True) s
          else if c = 0x66 then parseLiteral (js ''false'') (JBool False) s
          else if c = 0x6E then parseLiteral (js ''null'') JNull s
          else parseNumber s)"
| "parseElements acc s =
     (case parseValue s of
        None \<Rightarrow> None
      | Some (v, r) \<Rightarrow>
         (case skipWs r of
            [] \<Rightarrow> None
          | d # ds \<Rightarrow>
              if d = 0x2C then
                (if length (skipWs ds) < length s then parseElements (acc @ [v]) (skipWs ds)
                 else None)
              else if d = 0x5D then Some (JArray (acc @ [v]), ds)
              else None))"
| "parseMembers acc s =
     (case s of
        [] \<Rightarrow> None
      | q # cs \<Rightarrow>
          if q = 0x22 then
            (case parseStringBody cs of
               None \<Rightarrow> None
             | Some (k, r) \<Rightarrow>
                (case skipWs r of
                   [] \<Rightarrow> None
                 | d # ds \<Rightarrow>
                     if d = 0x3A \<and> length (skipWs ds) < length s then
                       (case parseValue (skipWs ds) of
                          None \<Rightarrow> None
                        | Some (v, r') \<Rightarrow>
                           (case skipWs r' of
                              [] \<Rightarrow> None
                            | d' # ds' \<Rightarrow>
                                if d' = 0x2C then
                                  (if length (skipWs ds') < length s then
                                     parseMembers (setEntry k v acc) (skipWs ds')
                                   else None)
                                else if d' = 0x7D then Some (JObject (setEntry k v acc), ds')
                                else None))
                     else None))
          else None)"
  by pat_completeness auto
termination
  by (relation "measure (\<lambda>x. case x of
          Inl s \<Rightarrow> 2 * length s
        | Inr (Inl (acc, s)) \<Rightarrow> 2 * length s + 1
        | Inr (Inr (acc, s)) \<Rightarrow> 2 * length s + 1)")
     (auto simp: skipWs_def dest: dropWhile_Cons_shorter)

declare parseValue.simps [simp del] parseElements.simps [simp del] parseMembers.simps [simp del]

text \<open>
  \<^verbatim>\<open>JSON.parse(text)\<close>: one value between optional white space, or a
  \<^verbatim>\<open>SyntaxError\<close>.
\<close>

definition JSON_parse :: "jsstring \<Rightarrow> js_error + jsval" where
  "JSON_parse s =
     (case parseValue (skipWs s) of
        None \<Rightarrow> Inl SyntaxError
      | Some (v, r) \<Rightarrow> if skipWs r = [] then Inr v else Inl SyntaxError)"

text \<open>
  Truthiness, \<^verbatim>\<open>typeof v === 'object'\<close>, \<^verbatim>\<open>Array.isArray\<close>, and reading one of the
  properties \<^verbatim>\<open>table\<close>, \<^verbatim>\<open>text\<close>, \<^verbatim>\<open>headers\<close>, \<^verbatim>\<open>rows\<close> (no prototype has a
  property of these names, so only an object's own properties count).  \<open>None\<close> is
  \<^verbatim>\<open>undefined\<close>; reading a property of \<^verbatim>\<open>null\<close> throws a \<^verbatim>\<open>TypeError\<close>.
\<close>

fun truthy :: "jsval \<Rightarrow> bool" where
  "truthy JNull = False"
| "truthy (JBool b) = b"
| "truthy (JNumber m e) = (m \<noteq> 0)"
| "truthy (JString s) = (s \<noteq> [])"
| "truthy (JArray xs) = True"
| "truthy (JObject ps) = True"

fun typeofObject :: "jsval \<Rightarrow> bool" where
  "typeofObject JNull = True"
| "typeofObject (JArray xs) = True"
| "typeofObject (JObject ps) = True"
| "typeofObject v = False"

fun isArray :: "jsval option \<Rightarrow> bool" where
  "isArray (Some (JArray xs)) = True"
| "isArray v = False"

fun getProp :: "jsval \<Rightarrow> jsstring \<Rightarrow> js_error + jsval option" where
  "getProp JNull k = Inl TypeError"
| "getProp (JObject ps) k = Inr (map_of ps k)"
| "getProp v k = Inr None"

definition bindE :: "'e + 'a \<Rightarrow> ('a \<Rightarrow> 'e + 'b) \<Rightarrow> 'e + 'b" where
  "bindE m f = (case m of Inl e \<Rightarrow> Inl e | Inr x \<Rightarrow> f x)"

section \<open>The table extractor\<close>

text \<open>
  The result \<^verbatim>\<open>{ remainingText, table }\<close>; \<open>None\<close> is \<^verbatim>\<open>table: null\<close>.  The type
  \<^verbatim>\<open>ComparisonTableData\<close> is erased at run time, so the table is the value itself: for a
  grid table the object \<^verbatim>\<open>{ headers, rows: rowsData }\<close>, for a fenced block whatever
  \<^verbatim>\<open>JSON.parse\<close> returned under \<^verbatim>\<open>table\<close>.
\<close>

record extraction =
  remainingText :: jsstring
  table :: "jsval option"

definition tableObject :: "jsstring list \<Rightarrow> jsstring list list \<Rightarrow> jsval" where
  "tableObject hs rs =
     JObject [(js ''headers'', JArray (map JString hs)),
              (js ''rows'', JArray (map (\<lambda>r. JArray (map JString r)) rs))]"

definition internalParseMarkdownForTable :: "jsstring \<Rightarrow> extraction" where
  "internalParseMarkdownForTable markdown =
     (let lines = split_str newline markdown;
          st = scanFrom lines 0
      in if tableStartIndex st = - 1 \<or> rowsData st = [] then
           \<lparr>remainingText = markdown, table = None\<rparr>
         else
           (let remainingLines =
                  map snd (filter (\<lambda>(index, l). int index < tableStartIndex st
                                               \<or> int index > tableEndIndex st)
                                  (enumerate 0 lines));
                remainingText = trim (join [newline] remainingLines)
            in \<lparr>remainingText = remainingText,
                table = Some (tableObject (headers st) (rowsData st))\<rparr>))"

text \<open>
  The validation of \<^verbatim>\<open>parsedJson.table\<close>: the value itself when it is an object whose
  \<^verbatim>\<open>headers\<close> and \<^verbatim>\<open>rows\<close> are arrays, \<^verbatim>\<open>null\<close> otherwise.
\<close>

definition validTable :: "jsval \<Rightarrow> js_error + jsval option" where
  "validTable t =
     (if typeofObject t \<and> t \<noteq> JNull then
        bindE (getProp t (js ''headers'')) (\<lambda>h.
          if isArray h then
            bindE (getProp t (js ''rows'')) (\<lambda>r.
              if isArray r then Inr (Some t) else Inr None)
          else Inr None)
      else Inr None)"

text \<open>
  The body of the \<^verbatim>\<open>try\<close> block: \<open>Inl\<close> is an exception thrown in it, \<open>Inr (Some r)\<close>
  is \<^verbatim>\<open>return r\<close>, and \<open>Inr None\<close> is the end of the block without a return.
\<close>

definition tryBlock :: "jsstring \<Rightarrow> jsstring \<Rightarrow> jsstring \<Rightarrow> js_error + extraction option" where
  "tryBlock textToParse block jsonString =
     bindE (JSON_parse jsonString) (\<lambda>parsedJson.
       if truthy parsedJson then
         bindE (getProp parsedJson (js ''table'')) (\<lambda>tableProp.
           (case tableProp of
              None \<Rightarrow> Inr None
            | Some t \<Rightarrow>
                if truthy t then
                  bindE (validTable t) (\<lambda>tbl.
                    (case tbl of
                       None \<Rightarrow> Inr None
                     | Some tb \<Rightarrow>
                         bindE (getProp parsedJson (js ''text'')) (\<lambda>textProp.
                           (let textOutsideBlock = trim (replaceFirst block [] textToParse);
                                textInsideBlock =
                                  (case textProp of Some (JString txt) \<Rightarrow> trim txt | _ \<Rightarrow> []);
                                combinedText =
                                  join [newline, newline]
                                    (filter (\<lambda>s. s \<noteq> []) [textOutsideBlock, textInsideBlock])
                            in Inr (Some \<lparr>remainingText = combinedText, table = Some tb\<rparr>)))))
                else Inr None))
       else Inr None)"

text \<open>
  \<^verbatim>\<open>extractAndParseMarkdownTable(responseText)\<close>.  The empty string is the only falsy
  string.  The \<^verbatim>\<open>catch\<close> clause handles every exception of the \<^verbatim>\<open>try\<close> block, and
  no statement outside the block can throw, so the function has no error result.
\<close>

definition extractAndParseMarkdownTable :: "jsstring \<Rightarrow> extraction" where
  "extractAndParseMarkdownTable responseText =
     (if responseText = [] then \<lparr>remainingText = [], table = None\<rparr>
      else
        (let textToParse = trim responseText;
             blockMatch = stringMatch rxJsonBlock textToParse
         in case blockMatch of
              None \<Rightarrow> internalParseMarkdownForTable responseText
            | Some (block, group1) \<Rightarrow>
               (case group1 of
                  None \<Rightarrow> internalParseMarkdownForTable responseText
                | Some jsonString \<Rightarrow>
                    if block \<noteq> [] \<and> jsonString \<noteq> [] then
                      (case tryBlock textToParse block jsonString of
                         Inr (Some result) \<Rightarrow> result
                       | Inr None \<Rightarrow> internalParseMarkdownForTable responseText
                       | Inl e \<Rightarrow>
                           (let textOutsideBlock = trim (replaceFirst block [] textToParse);
                                result = internalParseMarkdownForTable textOutsideBlock
                            in if table result \<noteq> None then result
                               else internalParseMarkdownForTable responseText))
                    else internalParseMarkdownForTable responseText)))"

section \<open>Merging the sources of a stream\<close>

text \<open>
  \<^verbatim>\<open>handleSearch\<close> keeps \<^verbatim>\<open>sourcesMap = new Map<string, Source>()\<close> and runs, for
  every chunk of the stream,
  \<^verbatim>\<open>if (chunk.sources) chunk.sources.forEach(s => sourcesMap.set(s.uri, s))\<close>; the
  sources shown and stored are \<^verbatim>\<open>Array.from(sourcesMap.values())\<close>.  A \<^verbatim>\<open>Map\<close> keeps
  its keys in the order of their first insertion, and \<^verbatim>\<open>set\<close> on a key it has
  replaces the value.
\<close>

definition mergeSources :: "(jsstring \<times> source) list \<Rightarrow> source list option \<Rightarrow> (jsstring \<times> source) list" where
  "mergeSources sourcesMap chunkSources =
     (case chunkSources of
        None \<Rightarrow> sourcesMap
      | Some ss \<Rightarrow> fold (\<lambda>s m. setEntry (uri s) s m) ss sourcesMap)"

definition collectSources :: "source list option list \<Rightarrow> source list" where
  "collectSources chunks = map snd (fold (\<lambda>chunkSources m. mergeSources m chunkSources) chunks [])"

text \<open>All the sources of a stream, in the order of their arrival.\<close>

definition arriving :: "source list option list \<Rightarrow> source list" where
  "arriving chunks = concat (map (\<lambda>chunkSources. case chunkSources of None \<Rightarrow> [] | Some ss \<Rightarrow> ss) chunks)"

text \<open>The keys of a sequence in the order in which each is seen first.\<close>

fun firstOccurrences :: "'a list \<Rightarrow> 'a list" where
  "firstOccurrences [] = []"
| "firstOccurrences (x # xs) = x # filter (\<lambda>y. y \<noteq> x) (firstOccurrences xs)"

section \<open>Properties of the specification\<close>

text \<open>
  The invariant of a comparison table, read off the table value: \<^verbatim>\<open>headers\<close> and
  \<^verbatim>\<open>rows\<close> are arrays, and every element of \<^verbatim>\<open>rows\<close> is an array as long as
  \<^verbatim>\<open>headers\<close>.
\<close>

definition rowsMatchHeaders :: "jsval \<Rightarrow> bool" where
  "rowsMatchHeaders t =
     (case getProp t (js ''headers'') of
        Inr (Some (JArray hs)) \<Rightarrow>
          (case getProp t (js ''rows'') of
             Inr (Some (JArray rs)) \<Rightarrow>
               list_all (\<lambda>r. case r of JArray cells \<Rightarrow> length cells = length hs | _ \<Rightarrow> False) rs
           | _ \<Rightarrow> False)
      | _ \<Rightarrow> False)"

text \<open>
  The separator line as the specification words it: strip one optional leading and one
  optional trailing pipe from the trimmed line, split on the pipe, and ask of every
  segment, its surrounding white space ignored, to be an optional colon, one or more
  dashes and an optional colon.
\<close>

definition stripEdgePipes :: "jsstring \<Rightarrow> jsstring" where
  "stripEdgePipes s =
     (let s1 = (case s of [] \<Rightarrow> [] | c # cs \<Rightarrow> if c = pipe then cs else s)
      in case rev s1 of [] \<Rightarrow> [] | c # cs \<Rightarrow> if c = pipe then rev cs else s1)"

definition dropColon :: "jsstring \<Rightarrow> jsstring" where
  "dropColon s = (case s of [] \<Rightarrow> [] | c # cs \<Rightarrow> if c = colon then cs else s)"

definition separatorSegment :: "jsstring \<Rightarrow> bool" where
  "separatorSegment s =
     (case dropColon s of
        [] \<Rightarrow> False
      | d # ds \<Rightarrow> d = dash \<and> dropColon (dropWhile (\<lambda>c. c = dash) ds) = [])"

definition specSeparatorLine :: "jsstring \<Rightarrow> bool" where
  "specSeparatorLine line =
     (let segments = split_str pipe (stripEdgePipes (trim line))
      in length segments \<ge> 1 \<and> list_all (\<lambda>seg. separatorSegment (trim seg)) segments)"

text \<open>White space removed from the end only, and what the segment pattern asks of a
  segment whose leading white space and colon have been taken off.\<close>

definition trimEnd :: "jsstring \<Rightarrow> jsstring" where
  "trimEnd s = rev (dropWhile isWhitespace (rev s))"

definition dashesThenEnd :: "jsstring \<Rightarrow> bool" where
  "dashesThenEnd s =
     (case s of
        [] \<Rightarrow> False
      | x # xs \<Rightarrow>
          x = dash \<and> dropWhile isWhitespace (dropColon (dropWhile (\<lambda>y. y = dash) xs)) = [])"

section \<open>Concrete inputs\<close>

definition ex_src :: source where
  "ex_src = \<lparr>title = js ''T'', uri = js ''u''\<rparr>"

definition ex_src2 :: source where
  "ex_src2 = \<lparr>title = js ''V'', uri = js ''v''\<rparr>"

definition ex_noStart :: citation where
  "ex_noStart = \<lparr>startIndex = None, endIndex = Some (Fin 3), cite_uri = js ''u'', license = None\<rparr>"

definition ex_dangling :: citation where
  "ex_dangling = \<lparr>startIndex = Some (Fin 1), endIndex = Some (Fin 3), cite_uri = js ''w'', license = None\<rparr>"

definition ex_endZero :: citation where
  "ex_endZero = \<lparr>startIndex = Some (Fin 2), endIndex = Some (Fin 0), cite_uri = js ''u'', license = None\<rparr>"

definition ex_first :: citation where
  "ex_first = \<lparr>startIndex = Some (Fin 0), endIndex = Some (Fin 4), cite_uri = js ''u'', license = None\<rparr>"

definition ex_second :: citation where
  "ex_second = \<lparr>startIndex = Some (Fin 2), endIndex = Some (Fin 6), cite_uri = js ''v'', license = None\<rparr>"

definition ex_startTwo :: citation where
  "ex_startTwo = \<lparr>startIndex = Some (Fin 2), endIndex = None, cite_uri = js ''u'', license = None\<rparr>"

definition ex_startNaN :: citation where
  "ex_startNaN = \<lparr>startIndex = Some NaN, endIndex = None, cite_uri = js ''u'', license = None\<rparr>"


definition ex_beyond :: citation where
  "ex_beyond = \<lparr>startIndex = Some (Fin 1), endIndex = Some PosInf, cite_uri = js ''v'', license = None\<rparr>"

definition ex_fraction :: citation where
  "ex_fraction = \<lparr>startIndex = Some (Fin (- 3)), endIndex = Some (Fin (3 / 2)), cite_uri = js ''u'', license = None\<rparr>"

definition ex_pfirst :: processedCitation where
  "ex_pfirst = \<lparr>pc_startIndex = Fin 0, pc_endIndex = Some (Fin 4), pc_uri = js ''u'', pc_license = None,
                 sourceIndex = 0, sourceTitle = js ''T''\<rparr>"

definition ex_psecond :: processedCitation where
  "ex_psecond = \<lparr>pc_startIndex = Fin 2, pc_endIndex = Some (Fin 6), pc_uri = js ''v'', pc_license = None,
                  sourceIndex = 1, sourceTitle = js ''V''\<rparr>"

definition ex_pinner :: processedCitation where
  "ex_pinner = \<lparr>pc_startIndex = Fin 1, pc_endIndex = Some (Fin 3), pc_uri = js ''v'', pc_license = None,
                 sourceIndex = 1, sourceTitle = js ''V''\<rparr>"

definition ex_chunks :: "source list option list" where
  "ex_chunks =
     [Some [\<lparr>title = js ''First'', uri = js ''u''\<rparr>], None,
      Some [\<lparr>title = js ''Second'', uri = js ''u''\<rparr>]]"

definition ex_gridText :: jsstring where
  "ex_gridText =
     js ''Intro text.\<newline>\<newline>| Name | Score |\<newline>| --- | --- |\<newline>| Alice | 90 |\<newline>| Bob | 85 |\<newline>\<newline>Outro text.''"

definition ex_gridTable :: jsval where
  "ex_gridTable =
     tableObject [js ''Name'', js ''Score''] [[js ''Alice'', js ''90''], [js ''Bob'', js ''85'']]"

definition ex_prose :: jsstring where
  "ex_prose = js ''Plain prose, no table here.''"

definition ex_malformed :: jsstring where
  "ex_malformed = js ''See ```json {\"table\": ``` end''"

definition ex_ragged :: jsstring where
  "ex_ragged = js ''```json\<newline>{\"table\":{\"headers\":[\"a\",\"b\"],\"rows\":[[\"x\"]]}}\<newline>```''"

definition ex_raggedTable :: jsval where
  "ex_raggedTable =
     JObject [(js ''headers'', JArray [JString (js ''a''), JString (js ''b'')]),
              (js ''rows'', JArray [JArray [JString (js ''x'')]])]"

definition ex_fenceRow :: jsstring where
  "ex_fenceRow = js ''| a | b |\<newline>|---|---|\<newline>```{\"table\":1,\"k\":\"x|y\"}```''"

definition ex_fenceBlock :: jsstring where
  "ex_fenceBlock = js ''```{\"table\":1,\"k\":\"x|y\"}```''"

definition ex_fencePayload :: jsstring where
  "ex_fencePayload = js ''{\"table\":1,\"k\":\"x|y\"}''"

definition ex_fenceJson :: jsval where
  "ex_fenceJson = JObject [(js ''table'', JNumber 1 0), (js ''k'', JString (js ''x|y''))]"

definition ex_fenceTable :: jsval where
  "ex_fenceTable =
     tableObject [js ''a'', js ''b''] [[js ''```{\"table\":1,\"k\":\"x'', js ''y\"}```'']]"

definition ex_dashes :: jsstring where
  "ex_dashes = js ''---''"

definition ex_separator :: jsstring where
  "ex_separator = js '' | :--- | :-: |  ''"

section \<open>The citation injector: proofs\<close>

lemma floor_rat_numeral: "\<lfloor>(numeral a :: rat) / numeral b\<rfloor> = numeral a div numeral b"
  using floor_divide_of_int_eq [of "numeral a" "numeral b", where ?'a = rat] by simp

lemmas injector_eval =
  processCitedContent_def processedCitations_def attachSource_def
  uriToSourceData_def js_def walkStep_def walkStart_def insertionPoint_def substring_def
  clampIndex_def substringFrom_def citationMarkdownLink_def decimal.simps digitChar_def
  enumerate_eq_zip ex_src_def ex_src2_def sortWith_def compareStart_def truthyNum_def
  less_jsnum_def less_eq_jsnum_def floor_rat_numeral

subsection \<open>The order of the numbers\<close>

lemma jsnum_less_irrefl: "\<not> (a::jsnum) < a"
  by (cases a) (simp_all add: less_jsnum_def)

lemma jsnum_le_not_less: "(a::jsnum) \<le> b \<Longrightarrow> \<not> b < a"
  by (cases a; cases b) (auto simp: less_eq_jsnum_def less_jsnum_def)

lemma jsnum_not_less_le: "a \<noteq> NaN \<Longrightarrow> b \<noteq> NaN \<Longrightarrow> \<not> b < a \<Longrightarrow> (a::jsnum) \<le> b"
  by (cases a; cases b) (auto simp: less_eq_jsnum_def less_jsnum_def)

subsection \<open>Substrings\<close>

lemma clampIndex_Fin_mono: "x \<le> y \<Longrightarrow> clampIndex s (Fin x) \<le> clampIndex s (Fin y)"
proof -
  assume xy: "x \<le> y"
  show ?thesis
  proof (cases "x < 0")
    case True
    then show ?thesis by (simp add: clampIndex_def)
  next
    case False
    then have "\<not> y < 0" using xy by simp
    moreover have "nat \<lfloor>x\<rfloor> \<le> nat \<lfloor>y\<rfloor>" using xy by (simp add: floor_mono nat_mono)
    ultimately show ?thesis using False by (simp add: clampIndex_def min_le_iff_disj)
  qed
qed

lemma clampIndex_length: "clampIndex s a \<le> length s"
  by (cases a) (simp_all add: clampIndex_def)

lemma clampIndex_mono: "a \<le> b \<Longrightarrow> clampIndex s a \<le> clampIndex s b"
proof (cases a)
  case (Fin x)
  note a = Fin
  assume ab: "a \<le> b"
  show ?thesis
  proof (cases b)
    case (Fin y)
    then have "x \<le> y" using ab a by (auto simp: less_eq_jsnum_def less_jsnum_def)
    then show ?thesis using a Fin by (simp only: clampIndex_Fin_mono)
  next
    case PosInf
    then show ?thesis using clampIndex_length [of s a] by (simp add: clampIndex_def)
  next
    case NegInf
    then show ?thesis using ab a by (simp add: less_eq_jsnum_def less_jsnum_def)
  next
    case NaN
    then show ?thesis using ab a by (simp add: less_eq_jsnum_def less_jsnum_def)
  qed
next
  case PosInf
  assume "a \<le> b"
  then have "b = PosInf" using PosInf by (cases b) (simp_all add: less_eq_jsnum_def less_jsnum_def)
  then show ?thesis using PosInf by simp
next
  case NegInf
  then show ?thesis by (simp add: clampIndex_def)
next
  case NaN
  then show ?thesis by (simp add: clampIndex_def)
qed

lemma substring_ordered:
  "a \<le> b \<Longrightarrow> substring s a b = take (clampIndex s b - clampIndex s a) (drop (clampIndex s a) s)"
  using clampIndex_mono [of a b s] by (simp add: substring_def Let_def min_def max_def)

lemma substring_same: "substring s a a = []"
  by (simp add: substring_def Let_def)

lemma take_drop_rest: "a \<le> b \<Longrightarrow> take (b - a) (drop a xs) @ drop b xs = drop a xs"
proof -
  assume "a \<le> b"
  then have "drop b xs = drop (b - a) (drop a xs)" by simp
  then show ?thesis by (simp only: append_take_drop_id)
qed

lemma substring_then_rest:
  "a \<le> b \<Longrightarrow> substring s a b @ drop (clampIndex s b) s = drop (clampIndex s a) s"
  by (simp add: substring_ordered take_drop_rest clampIndex_mono)

subsection \<open>The walk as a decomposition of the content\<close>

lemma walk_decomposition:
  "lastIndex st \<noteq> NaN \<Longrightarrow> \<forall>c \<in> set pcs. insertionPoint c \<noteq> NaN \<Longrightarrow>
   \<exists>segs ks. length segs = Suc (length ks) \<and>
      concat (resultParts (foldl (walkStep content) st pcs)
              @ [substringFrom content (lastIndex (foldl (walkStep content) st pcs))])
        = concat (resultParts st) @ interleave segs (map citationMarkdownLink ks) \<and>
      concat segs = drop (clampIndex content (lastIndex st)) content"
proof (induction pcs arbitrary: st)
  case Nil
  have "length [substringFrom content (lastIndex st)] = Suc (length ([]::nat list))" by simp
  moreover have "concat (resultParts (foldl (walkStep content) st [])
              @ [substringFrom content (lastIndex (foldl (walkStep content) st []))])
        = concat (resultParts st)
          @ interleave [substringFrom content (lastIndex st)] (map citationMarkdownLink [])"
    by simp
  moreover have "concat [substringFrom content (lastIndex st)]
        = drop (clampIndex content (lastIndex st)) content"
    by (simp add: substringFrom_def)
  ultimately show ?case by blast
next
  case (Cons c pcs)
  show ?case
  proof (cases "insertionPoint c < lastIndex st")
    case True
    then have "walkStep content st c = st" by (simp add: walkStep_def)
    then show ?thesis using Cons.IH [of st] Cons.prems by simp
  next
    case False
    have ip: "insertionPoint c \<noteq> NaN" using Cons.prems by simp
    have ord: "lastIndex st \<le> insertionPoint c"
      using False ip Cons.prems(1) by (simp add: jsnum_not_less_le)
    define st' where "st' = walkStep content st c"
    have parts: "resultParts st' = resultParts st @
        [substring content (lastIndex st) (insertionPoint c), citationMarkdownLink (sourceIndex c)]"
      and last: "lastIndex st' = insertionPoint c"
      using False by (simp_all add: st'_def walkStep_def Let_def)
    have "lastIndex st' \<noteq> NaN" using last ip by simp
    moreover have "\<forall>c \<in> set pcs. insertionPoint c \<noteq> NaN" using Cons.prems by simp
    ultimately obtain segs ks where
      len: "length segs = Suc (length ks)" and
      out: "concat (resultParts (foldl (walkStep content) st' pcs)
              @ [substringFrom content (lastIndex (foldl (walkStep content) st' pcs))])
        = concat (resultParts st') @ interleave segs (map citationMarkdownLink ks)" and
      whole: "concat segs = drop (clampIndex content (lastIndex st')) content"
      using Cons.IH [of st'] by blast
    let ?seg = "substring content (lastIndex st) (insertionPoint c)"
    have "length (?seg # segs) = Suc (length (sourceIndex c # ks))" using len by simp
    moreover have "concat (resultParts (foldl (walkStep content) st (c # pcs))
              @ [substringFrom content (lastIndex (foldl (walkStep content) st (c # pcs)))])
        = concat (resultParts st)
          @ interleave (?seg # segs) (map citationMarkdownLink (sourceIndex c # ks))"
      using out parts by (simp add: st'_def)
    moreover have "concat (?seg # segs) = drop (clampIndex content (lastIndex st)) content"
      using ord whole last substring_then_rest [of "lastIndex st" "insertionPoint c" content]
      by simp
    ultimately show ?thesis by blast
  qed
qed

subsection \<open>Citations that cannot be placed\<close>

lemma uriToSourceData_fold_dom:
  "dom (fold (\<lambda>(index, source) m. m(uri source \<mapsto> (index, title source))) (enumerate n ss) m0)
     = dom m0 \<union> uri ` set ss"
  by (induction ss arbitrary: n m0) auto

lemma uriToSourceData_known:
  "(uriToSourceData ss u \<noteq> None) = (u \<in> set (map uri ss))"
proof -
  have "dom (uriToSourceData ss) = uri ` set ss"
    by (simp add: uriToSourceData_def uriToSourceData_fold_dom)
  then have "(u \<in> dom (uriToSourceData ss)) = (u \<in> uri ` set ss)" by simp
  then show ?thesis by (simp add: domIff)
qed

lemma attachSource_None: "(attachSource ss c = None) = (\<not> survives ss c)"
  using uriToSourceData_known [of ss "cite_uri c"]
  by (auto simp: attachSource_def survives_def split: option.splits)

lemma attach_numbered_filter:
  "filter (\<lambda>p. p \<noteq> None) (map (attachSource ss) (filter (\<lambda>c. startIndex c \<noteq> None) cs))
     = filter (\<lambda>p. p \<noteq> None) (map (attachSource ss)
         (filter (\<lambda>c. startIndex c \<noteq> None) (filter (survives ss) cs)))"
proof (induction cs)
  case Nil
  show ?case by simp
next
  case (Cons c cs)
  have "\<not> survives ss c \<Longrightarrow> attachSource ss c = None"
    by (simp add: attachSource_None)
  then show ?case using Cons by auto
qed

lemma processedCitations_survivors:
  "processedCitations cs ss = processedCitations (filter (survives ss) cs) ss"
  by (simp only: processedCitations_def attach_numbered_filter [of ss cs])

lemma processedCitations_Nil [simp]: "processedCitations [] ss = []"
  by (simp add: processedCitations_def sortWith_def)

lemma processCitedContent_survivors:
  "processCitedContent content citations sources
     = processCitedContent content (Some (survivors citations sources)) sources"
proof (cases citations)
  case None
  then show ?thesis by (simp add: processCitedContent_def survivors_def split: option.splits)
next
  case (Some cs)
  note c = Some
  show ?thesis
  proof (cases sources)
    case None
    then show ?thesis using c by (simp add: processCitedContent_def survivors_def)
  next
    case (Some ss)
    have eq: "processedCitations cs ss = processedCitations (filter (survives ss) cs) ss"
      by (rule processedCitations_survivors)
    show ?thesis
    proof (cases "filter (survives ss) cs = []")
      case True
      then have "processedCitations cs ss = []" using eq by simp
      then show ?thesis using c Some True
        by (simp add: processCitedContent_def survivors_def Let_def)
    next
      case False
      then have "cs \<noteq> []" by auto
      then show ?thesis using c Some False eq
        by (simp add: processCitedContent_def survivors_def Let_def)
    qed
  qed
qed

text \<open>
  Claim C8.  \<open>processCitedContent\<close> is a total function (it has no error result: the
  source has no statement that throws, and the \<^verbatim>\<open>null\<close> arguments are the \<open>None\<close>
  cases).  Citations with a missing (non-numeric) \<^verbatim>\<open>startIndex\<close> and citations whose
  uri no source has contribute nothing: the output is the output for the surviving
  citations alone.  When no citation survives, \<^verbatim>\<open>null\<close> or empty arguments included,
  the result is the content itself.
\<close>

theorem processCitedContent_drops_unplaceable:
  "processCitedContent content citations sources
     = processCitedContent content (Some (survivors citations sources)) sources
   \<and> (survivors citations sources = [] \<longrightarrow>
        processCitedContent content citations sources = content)"
proof -
  have "survivors citations sources = [] \<Longrightarrow>
        processCitedContent content citations sources = content"
  proof -
    assume e: "survivors citations sources = []"
    have "processCitedContent content (Some (survivors citations sources)) sources = content"
      by (simp add: e processCitedContent_def split: option.splits)
    then show ?thesis using processCitedContent_survivors [of content citations sources] by simp
  qed
  then show ?thesis using processCitedContent_survivors [of content citations sources] by blast
qed

theorem processCitedContent_drops_unplaceable_witness:
  "survivors (Some [ex_noStart, ex_dangling]) (Some [ex_src]) = []
   \<and> processCitedContent (js ''abcdef'') (Some [ex_noStart, ex_dangling]) (Some [ex_src])
       = js ''abcdef''
   \<and> survivors None (Some [ex_src]) = []
   \<and> processCitedContent (js ''abcdef'') None (Some [ex_src]) = js ''abcdef''"
proof -
  have h: "survivors (Some [ex_noStart, ex_dangling]) (Some [ex_src]) = []"
    by (simp add: survivors_def survives_def ex_noStart_def ex_dangling_def ex_src_def js_def)
  have "processCitedContent (js ''abcdef'') (Some [ex_noStart, ex_dangling]) (Some [ex_src])
          = js ''abcdef''"
    using h processCitedContent_drops_unplaceable
      [of "js ''abcdef''" "Some [ex_noStart, ex_dangling]" "Some [ex_src]"]
    by blast
  moreover have h': "survivors None (Some [ex_src]) = []"
    by (simp add: survivors_def)
  moreover have "processCitedContent (js ''abcdef'') None (Some [ex_src]) = js ''abcdef''"
    using h' processCitedContent_drops_unplaceable [of "js ''abcdef''" None "Some [ex_src]"]
    by blast
  ultimately show ?thesis using h by simp
qed

subsection \<open>The sorted citations\<close>

lemma set_insertSorted: "set (insertSorted cmp x xs) = insert x (set xs)"
  by (induction xs) auto

lemma set_sortWith: "set (sortWith cmp xs) = set xs"
  by (induction xs) (simp_all add: sortWith_def set_insertSorted)

lemma processedCitations_attached:
  "p \<in> set (processedCitations cs ss) \<Longrightarrow> \<exists>c \<in> set cs. attachSource ss c = Some p"
  by (auto simp: processedCitations_def set_sortWith)

lemma attachSource_insertionPoint:
  "attachSource ss c = Some p \<Longrightarrow>
   insertionPoint p =
     (case endIndex c of
        None \<Rightarrow> the (startIndex c)
      | Some e \<Rightarrow> if truthyNum e then e else the (startIndex c))"
  by (auto simp: attachSource_def insertionPoint_def split: option.splits)

lemma attachSource_NaN:
  "attachSource ss c = Some p \<Longrightarrow> insertionPoint p = NaN \<Longrightarrow> nanInsertion c"
proof -
  assume a: "attachSource ss c = Some p" and n: "insertionPoint p = NaN"
  from a have "startIndex c \<noteq> None" by (auto simp: attachSource_def split: option.splits)
  then obtain st where st: "startIndex c = Some st" by blast
  show ?thesis using attachSource_insertionPoint [OF a] n st
    by (auto simp: nanInsertion_def truthyNum_def split: option.splits if_splits)
qed

subsection \<open>The walk only inserts markers\<close>

lemma digitChar_not_b: "d < 10 \<Longrightarrow> digitChar d \<noteq> 0x62"
proof -
  assume "d < 10"
  then have "d \<in> {0, 1, 2, 3, 4, 5, 6, 7, 8, 9}" by auto
  then show ?thesis by (auto simp: digitChar_def)
qed

lemma decimal_no_b: "(0x62::jschar) \<notin> set (decimal n)"
proof (induction n rule: decimal.induct)
  case (1 n)
  show ?case
  proof (cases "n < 10")
    case True
    then show ?thesis using digitChar_not_b [of n] by (subst decimal.simps) auto
  next
    case False
    have "n mod 10 < 10" by simp
    then have "digitChar (n mod 10) \<noteq> 0x62" by (rule digitChar_not_b)
    then show ?thesis using False 1 by (subst decimal.simps) auto
  qed
qed

lemma marker_no_b: "filter (\<lambda>x. x = 0x62) (citationMarkdownLink k) = []"
proof -
  have "(0x62::jschar) \<notin> set (citationMarkdownLink k)"
    using decimal_no_b [of k] decimal_no_b [of "k + 1"]
    by (simp add: citationMarkdownLink_def js_def)
  then show ?thesis by (auto simp: filter_empty_conv)
qed

lemma interleave_markers_b:
  "length segs = Suc (length ks) \<Longrightarrow>
   filter (\<lambda>x. x = 0x62) (interleave segs (map citationMarkdownLink ks))
     = filter (\<lambda>x. x = 0x62) (concat segs)"
proof (induction ks arbitrary: segs)
  case Nil
  then show ?case by (cases segs) simp_all
next
  case (Cons k ks)
  then obtain s segs' where segs: "segs = s # segs'" by (cases segs) auto
  then have "length segs' = Suc (length ks)" using Cons.prems by simp
  then show ?case using Cons.IH [of segs'] segs by (simp add: marker_no_b)
qed

text \<open>
  The walk from the start over any list of citations, in whatever order, none of which has
  the insertion point \<^verbatim>\<open>NaN\<close>: the pieces are the content with markers inserted.
\<close>

lemma walk_any_order_inserts_markers:
  "\<forall>c \<in> set pcs. insertionPoint c \<noteq> NaN \<Longrightarrow>
   \<exists>segs ks. length segs = Suc (length ks) \<and>
      concat (resultParts (foldl (walkStep content) walkStart pcs)
              @ [substringFrom content (lastIndex (foldl (walkStep content) walkStart pcs))])
        = interleave segs (map citationMarkdownLink ks) \<and> concat segs = content"
  using walk_decomposition [of walkStart pcs content]
  by (simp add: clampIndex_def walkStart_def)

text \<open>
  Claim C10 as stated fails when an insertion point is \<^verbatim>\<open>NaN\<close>.  On the content
  \<^verbatim>\<open>abc\<close> with a citation at start index \<open>2\<close> followed by one whose start index is
  \<^verbatim>\<open>NaN\<close> (both without end index, both of a known source), the second is not skipped
  (\<^verbatim>\<open>NaN < 2\<close> is false), \<^verbatim>\<open>substring(2, NaN)\<close> gives \<^verbatim>\<open>ab\<close> once more and
  \<^verbatim>\<open>substring(NaN)\<close> the whole content: the output repeats text of the input, and it
  is not the content with markers inserted.
\<close>

theorem nan_startIndex_repeats_text:
  "processCitedContent (js ''abc'') (Some [ex_startTwo, ex_startNaN]) (Some [ex_src])
     = js ''ab[1](#citation-0)ab[1](#citation-0)abc''
   \<and> \<not> (\<exists>segs ks. length segs = Suc (length ks) \<and>
          processCitedContent (js ''abc'') (Some [ex_startTwo, ex_startNaN]) (Some [ex_src])
            = interleave segs (map citationMarkdownLink ks) \<and>
          concat segs = js ''abc'')"
proof -
  have out: "processCitedContent (js ''abc'') (Some [ex_startTwo, ex_startNaN]) (Some [ex_src])
     = js ''ab[1](#citation-0)ab[1](#citation-0)abc''"
    by (simp add: injector_eval ex_startTwo_def ex_startNaN_def)
  have "\<not> (\<exists>segs ks. length segs = Suc (length ks) \<and>
          js ''ab[1](#citation-0)ab[1](#citation-0)abc''
            = interleave segs (map citationMarkdownLink ks) \<and>
          concat segs = js ''abc'')"
  proof
    assume "\<exists>segs ks. length segs = Suc (length ks) \<and>
          js ''ab[1](#citation-0)ab[1](#citation-0)abc''
            = interleave segs (map citationMarkdownLink ks) \<and>
          concat segs = js ''abc''"
    then obtain segs ks where len: "length segs = Suc (length ks)"
      and eq: "js ''ab[1](#citation-0)ab[1](#citation-0)abc''
            = interleave segs (map citationMarkdownLink ks)"
      and whole: "concat segs = js ''abc''"
      by blast
    have "filter (\<lambda>x. x = 0x62) (js ''ab[1](#citation-0)ab[1](#citation-0)abc'')
        = filter (\<lambda>x. x = 0x62) (js ''abc'')"
      using interleave_markers_b [OF len] by (simp only: eq whole)
    then show False by (simp add: js_def)
  qed
  then show ?thesis by (simp only: out) simp
qed

text \<open>
  Claim C10, amended.  For every content string and every citations and sources argument
  in which no surviving citation has the insertion point \<^verbatim>\<open>NaN\<close> (a start index
  \<^verbatim>\<open>NaN\<close> with an end index that is missing, \<open>0\<close> or \<^verbatim>\<open>NaN\<close>), the output of
  \<open>processCitedContent\<close> is the content cut into consecutive segments with one marker
  \<open>citationMarkdownLink k\<close> inserted between each two: taking the inserted markers out
  leaves the segments, whose concatenation is the content, character for character.
  Insertion points that are out of range, duplicate, negative, fractional or infinite are
  covered.  The order in which the sort leaves the citations plays no part (lemma
  \<open>walk_any_order_inserts_markers\<close>).
\<close>

theorem processCitedContent_only_inserts_markers:
  assumes "list_all (\<lambda>c. \<not> nanInsertion c) (survivors citations sources)"
  shows "\<exists>segs ks. length segs = Suc (length ks) \<and>
      processCitedContent content citations sources
        = interleave segs (map citationMarkdownLink ks) \<and>
      concat segs = content"
proof -
  have unchanged: "\<exists>segs ks. length segs = Suc (length ks) \<and>
      content = interleave segs (map citationMarkdownLink ks) \<and> concat segs = content"
  proof -
    have "length [content] = Suc (length ([]::nat list)) \<and>
      content = interleave [content] (map citationMarkdownLink []) \<and> concat [content] = content"
      by simp
    then show ?thesis by blast
  qed
  show ?thesis
  proof (cases citations)
    case None
    then show ?thesis using unchanged by (simp add: processCitedContent_def)
  next
    case (Some cs)
    note c = Some
    show ?thesis
    proof (cases sources)
      case None
      then show ?thesis using unchanged c by (simp add: processCitedContent_def)
    next
      case (Some ss)
      show ?thesis
      proof (cases "cs = [] \<or> ss = [] \<or> processedCitations cs ss = []")
        case True
        then show ?thesis using unchanged c Some by (auto simp: processCitedContent_def Let_def)
      next
        case False
        have "insertionPoint p \<noteq> NaN" if p: "p \<in> set (processedCitations cs ss)" for p
        proof
          assume n: "insertionPoint p = NaN"
          from p obtain x where x: "x \<in> set cs" and a: "attachSource ss x = Some p"
            using processedCitations_attached by blast
          have "survives ss x" using a attachSource_None [of ss x] by simp
          then have "x \<in> set (survivors citations sources)"
            using x c Some by (simp add: survivors_def)
          then have "\<not> nanInsertion x" using assms by (simp add: list_all_iff)
          then show False using attachSource_NaN [OF a n] by simp
        qed
        then have ok: "\<forall>p \<in> set (processedCitations cs ss). insertionPoint p \<noteq> NaN" by blast
        have "processCitedContent content citations sources =
          concat (resultParts (foldl (walkStep content) walkStart (processedCitations cs ss))
              @ [substringFrom content
                   (lastIndex (foldl (walkStep content) walkStart (processedCitations cs ss)))])"
          using False c Some by (simp add: processCitedContent_def Let_def)
        then show ?thesis
          using walk_any_order_inserts_markers [OF ok, of content] by simp
      qed
    qed
  qed
qed

theorem processCitedContent_only_inserts_markers_witness:
  "list_all (\<lambda>c. \<not> nanInsertion c)
     (survivors (Some [ex_beyond, ex_endZero, ex_noStart, ex_fraction]) (Some [ex_src, ex_src2]))
   \<and> processCitedContent (js ''abc'') (Some [ex_beyond, ex_endZero, ex_noStart, ex_fraction])
         (Some [ex_src, ex_src2])
       = js ''a[1](#citation-0)bc[2](#citation-1)''
   \<and> (\<exists>segs ks. length segs = Suc (length ks) \<and>
        processCitedContent (js ''abc'') (Some [ex_beyond, ex_endZero, ex_noStart, ex_fraction])
            (Some [ex_src, ex_src2])
          = interleave segs (map citationMarkdownLink ks) \<and>
        concat segs = js ''abc'')"
proof -
  have h: "list_all (\<lambda>c. \<not> nanInsertion c)
     (survivors (Some [ex_beyond, ex_endZero, ex_noStart, ex_fraction]) (Some [ex_src, ex_src2]))"
    by (simp add: survivors_def survives_def nanInsertion_def ex_beyond_def ex_endZero_def
        ex_noStart_def ex_fraction_def ex_src_def ex_src2_def js_def)
  have out: "processCitedContent (js ''abc'') (Some [ex_beyond, ex_endZero, ex_noStart, ex_fraction])
         (Some [ex_src, ex_src2])
       = js ''a[1](#citation-0)bc[2](#citation-1)''"
    by (simp add: injector_eval ex_beyond_def ex_endZero_def ex_noStart_def ex_fraction_def)
  show ?thesis
    using h out processCitedContent_only_inserts_markers
      [of "Some [ex_beyond, ex_endZero, ex_noStart, ex_fraction]" "Some [ex_src, ex_src2]"
          "js ''abc''"]
    by blast
qed

subsection \<open>The insertion point\<close>




subsection \<open>Skipped and accepted citations\<close>

text \<open>
  Claim C7 as stated fails on its last part.  The citations \<open>[0, 4)\<close> and \<open>[2, 6)\<close>
  overlap and are sorted by start index, the insertion point \<open>6\<close> of the second has not
  been passed when it is processed (the cursor is \<open>4\<close>), and both produce a marker.
\<close>

theorem overlapping_citations_both_marked:
  "processedCitations [ex_first, ex_second] [ex_src, ex_src2] = [ex_pfirst, ex_psecond]
   \<and> pc_startIndex ex_pfirst \<le> pc_startIndex ex_psecond
   \<and> pc_startIndex ex_psecond < insertionPoint ex_pfirst
   \<and> walkStep (js ''abcdefgh'') (walkStep (js ''abcdefgh'') walkStart ex_pfirst) ex_psecond
       \<noteq> walkStep (js ''abcdefgh'') walkStart ex_pfirst
   \<and> processCitedContent (js ''abcdefgh'') (Some [ex_first, ex_second]) (Some [ex_src, ex_src2])
       = js ''abcd[1](#citation-0)ef[2](#citation-1)gh''"
  by (simp add: injector_eval ex_first_def ex_second_def ex_pfirst_def ex_psecond_def)

text \<open>
  Claim C7, amended.  A citation whose insertion point is strictly before the cursor is
  skipped: the state (pieces and cursor) is unchanged.  A citation whose insertion point
  equals the cursor is accepted: an empty text piece and its marker are pushed.
  Consequently, of two citations processed one after the other, the first one accepted,
  the second is skipped when its insertion point is strictly before the first's (a span
  that ends inside the first), and both produce a marker when the second's insertion
  point is not before the first's.
\<close>

theorem walkStep_skips_passed_insertion_points:
  "(insertionPoint c < lastIndex st \<longrightarrow> walkStep content st c = st)
   \<and> (insertionPoint c' = lastIndex st' \<longrightarrow>
        walkStep content st' c' =
          \<lparr>resultParts = resultParts st' @ [[], citationMarkdownLink (sourceIndex c')],
           lastIndex = lastIndex st'\<rparr>)
   \<and> (lastIndex s \<le> insertionPoint c1 \<and> insertionPoint c2 < insertionPoint c1 \<longrightarrow>
        walkStep content (walkStep content s c1) c2 = walkStep content s c1)
   \<and> (lastIndex s' \<le> insertionPoint d1 \<and> insertionPoint d1 \<le> insertionPoint d2 \<longrightarrow>
        resultParts (walkStep content (walkStep content s' d1) d2) =
          resultParts s' @
            [substring content (lastIndex s') (insertionPoint d1),
             citationMarkdownLink (sourceIndex d1),
             substring content (insertionPoint d1) (insertionPoint d2),
             citationMarkdownLink (sourceIndex d2)])"
proof -
  have skip: "walkStep content st c = st" if "insertionPoint c < lastIndex st"
    using that by (simp add: walkStep_def Let_def)
  have same: "walkStep content st' c' =
          \<lparr>resultParts = resultParts st' @ [[], citationMarkdownLink (sourceIndex c')],
           lastIndex = lastIndex st'\<rparr>" if "insertionPoint c' = lastIndex st'"
    using that by (simp add: walkStep_def Let_def jsnum_less_irrefl substring_same)
  have inner: "walkStep content (walkStep content s c1) c2 = walkStep content s c1"
    if "lastIndex s \<le> insertionPoint c1" and "insertionPoint c2 < insertionPoint c1"
    using that jsnum_le_not_less [of "lastIndex s" "insertionPoint c1"]
    by (simp add: walkStep_def Let_def)
  have both: "resultParts (walkStep content (walkStep content s' d1) d2) =
          resultParts s' @
            [substring content (lastIndex s') (insertionPoint d1),
             citationMarkdownLink (sourceIndex d1),
             substring content (insertionPoint d1) (insertionPoint d2),
             citationMarkdownLink (sourceIndex d2)]"
    if "lastIndex s' \<le> insertionPoint d1" and "insertionPoint d1 \<le> insertionPoint d2"
    using that jsnum_le_not_less [of "lastIndex s'" "insertionPoint d1"]
      jsnum_le_not_less [of "insertionPoint d1" "insertionPoint d2"]
    by (simp add: walkStep_def Let_def)
  show ?thesis using skip same inner both by blast
qed

theorem walkStep_skips_passed_insertion_points_witness:
  "insertionPoint ex_pinner < lastIndex (walkStep (js ''abcdefgh'') walkStart ex_pfirst)
   \<and> walkStep (js ''abcdefgh'') (walkStep (js ''abcdefgh'') walkStart ex_pfirst) ex_pinner
       = walkStep (js ''abcdefgh'') walkStart ex_pfirst
   \<and> insertionPoint ex_pfirst = lastIndex (walkStep (js ''abcdefgh'') walkStart ex_pfirst)
   \<and> resultParts (walkStep (js ''abcdefgh'') (walkStep (js ''abcdefgh'') walkStart ex_pfirst) ex_pfirst)
       = [js ''abcd'', js ''[1](#citation-0)'', [], js ''[1](#citation-0)'']
   \<and> lastIndex walkStart \<le> insertionPoint ex_pfirst
   \<and> insertionPoint ex_pinner < insertionPoint ex_pfirst
   \<and> insertionPoint ex_pfirst \<le> insertionPoint ex_psecond
   \<and> resultParts (walkStep (js ''abcdefgh'') (walkStep (js ''abcdefgh'') walkStart ex_pfirst) ex_psecond)
       = [js ''abcd'', js ''[1](#citation-0)'', js ''ef'', js ''[2](#citation-1)'']"
proof -
  let ?content = "js ''abcdefgh''"
  let ?st = "walkStep ?content walkStart ex_pfirst"
  have st: "?st = \<lparr>resultParts = [js ''abcd'', js ''[1](#citation-0)''], lastIndex = Fin 4\<rparr>"
    by (simp add: injector_eval ex_pfirst_def)
  have h1: "insertionPoint ex_pinner < lastIndex ?st"
    by (simp add: st) (simp add: insertionPoint_def ex_pinner_def truthyNum_def less_jsnum_def)
  have h2: "insertionPoint ex_pfirst = lastIndex ?st"
    by (simp add: st) (simp add: insertionPoint_def ex_pfirst_def truthyNum_def)
  have h3: "lastIndex walkStart \<le> insertionPoint ex_pfirst
      \<and> insertionPoint ex_pinner < insertionPoint ex_pfirst"
    by (simp add: insertionPoint_def ex_pfirst_def ex_pinner_def walkStart_def truthyNum_def
        less_jsnum_def less_eq_jsnum_def)
  have h4: "lastIndex walkStart \<le> insertionPoint ex_pfirst
      \<and> insertionPoint ex_pfirst \<le> insertionPoint ex_psecond"
    by (simp add: insertionPoint_def ex_pfirst_def ex_psecond_def walkStart_def truthyNum_def
        less_jsnum_def less_eq_jsnum_def)
  note T = walkStep_skips_passed_insertion_points
    [of ex_pinner ?st ?content ex_pfirst ?st walkStart ex_pfirst ex_pinner walkStart
        ex_pfirst ex_psecond]
  have a: "walkStep ?content ?st ex_pinner = ?st" using T h1 by blast
  have b: "walkStep ?content ?st ex_pfirst =
      \<lparr>resultParts = resultParts ?st @ [[], citationMarkdownLink (sourceIndex ex_pfirst)],
       lastIndex = lastIndex ?st\<rparr>"
    using T h2 by blast
  have d: "resultParts (walkStep ?content ?st ex_psecond) =
          resultParts walkStart @
            [substring ?content (lastIndex walkStart) (insertionPoint ex_pfirst),
             citationMarkdownLink (sourceIndex ex_pfirst),
             substring ?content (insertionPoint ex_pfirst) (insertionPoint ex_psecond),
             citationMarkdownLink (sourceIndex ex_psecond)]"
    using T h4 by blast
  have b': "resultParts (walkStep ?content ?st ex_pfirst)
      = [js ''abcd'', js ''[1](#citation-0)'', [], js ''[1](#citation-0)'']"
    by (simp only: b) (simp add: st, simp add: injector_eval ex_pfirst_def)
  have d': "resultParts (walkStep ?content ?st ex_psecond)
      = [js ''abcd'', js ''[1](#citation-0)'', js ''ef'', js ''[2](#citation-1)'']"
    by (simp only: d) (simp add: injector_eval ex_pfirst_def ex_psecond_def)
  show ?thesis using h1 a h2 b' h3 h4 d' by blast
qed

section \<open>Merging the sources of a stream: proofs\<close>

lemma setEntry_keys:
  "map fst (setEntry k v m) = (if k \<in> set (map fst m) then map fst m else map fst m @ [k])"
  by (induction m) auto

lemma setEntry_distinct: "distinct (map fst m) \<Longrightarrow> distinct (map fst (setEntry k v m))"
  by (simp add: setEntry_keys)

lemma map_of_setEntry: "map_of (setEntry k v m) = (map_of m)(k \<mapsto> v)"
  by (induction m) (auto simp: fun_eq_iff)

lemma setEntry_set: "set (setEntry k v m) \<subseteq> insert (k, v) (set m)"
  by (induction m) auto

lemma fold_setEntry_distinct:
  "distinct (map fst m) \<Longrightarrow> distinct (map fst (fold (\<lambda>s m. setEntry (uri s) s m) ss m))"
  by (induction ss arbitrary: m) (simp_all add: setEntry_distinct)

lemma fold_setEntry_keyed:
  "list_all (\<lambda>e. uri (snd e) = fst e) m \<Longrightarrow>
   list_all (\<lambda>e. uri (snd e) = fst e) (fold (\<lambda>s m. setEntry (uri s) s m) ss m)"
proof (induction ss arbitrary: m)
  case Nil
  then show ?case by simp
next
  case (Cons s ss)
  have "list_all (\<lambda>e. uri (snd e) = fst e) (setEntry (uri s) s m)"
    using Cons.prems setEntry_set [of "uri s" s m] by (auto simp: list_all_iff)
  then show ?case using Cons.IH by simp
qed

lemma fold_setEntry_map_of:
  "map_of (fold (\<lambda>s m. setEntry (uri s) s m) ss m)
     = map_of m ++ map_of (rev (map (\<lambda>s. (uri s, s)) ss))"
proof (induction ss arbitrary: m)
  case Nil
  show ?case by simp
next
  case (Cons s ss)
  have "map_of (fold (\<lambda>s m. setEntry (uri s) s m) (s # ss) m)
      = (map_of m)(uri s \<mapsto> s) ++ map_of (rev (map (\<lambda>s. (uri s, s)) ss))"
    by (simp only: fold_simps Cons.IH map_of_setEntry)
  also have "\<dots> = map_of m ++ map_of (rev (map (\<lambda>s. (uri s, s)) (s # ss)))"
    by (auto simp: fun_eq_iff map_add_def split: option.splits)
  finally show ?case .
qed

lemma merge_chunks_invariants:
  "distinct (map fst m) \<Longrightarrow> list_all (\<lambda>e. uri (snd e) = fst e) m \<Longrightarrow>
   distinct (map fst (fold (\<lambda>chunkSources m. mergeSources m chunkSources) chunks m))
   \<and> list_all (\<lambda>e. uri (snd e) = fst e)
        (fold (\<lambda>chunkSources m. mergeSources m chunkSources) chunks m)
   \<and> map_of (fold (\<lambda>chunkSources m. mergeSources m chunkSources) chunks m)
       = map_of m ++ map_of (rev (map (\<lambda>s. (uri s, s)) (arriving chunks)))"
proof (induction chunks arbitrary: m)
  case Nil
  then show ?case by (simp add: arriving_def)
next
  case (Cons ch chunks)
  let ?ss = "case ch of None \<Rightarrow> [] | Some ss \<Rightarrow> ss"
  have step: "mergeSources m ch = fold (\<lambda>s m. setEntry (uri s) s m) ?ss m"
    by (simp add: mergeSources_def split: option.splits)
  have d: "distinct (map fst (mergeSources m ch))"
    using Cons.prems(1) by (simp add: step fold_setEntry_distinct)
  have k: "list_all (\<lambda>e. uri (snd e) = fst e) (mergeSources m ch)"
    using Cons.prems(2) by (simp add: step fold_setEntry_keyed)
  have m: "map_of (mergeSources m ch) = map_of m ++ map_of (rev (map (\<lambda>s. (uri s, s)) ?ss))"
    by (simp add: step fold_setEntry_map_of)
  have arr: "arriving (ch # chunks) = ?ss @ arriving chunks"
    by (simp add: arriving_def)
  from Cons.IH [OF d k] show ?case
    by (simp add: m arr)
qed

lemma keyed_map_of_title:
  "list_all (\<lambda>e. uri (snd e) = fst e) m \<Longrightarrow>
   map_of (map (\<lambda>s. (uri s, title s)) (map snd m)) u = map_option title (map_of m u)"
  by (induction m) auto

lemma map_of_title: "map_of (map (\<lambda>s. (uri s, title s)) ss) u = map_option title (map_of (map (\<lambda>s. (uri s, s)) ss) u)"
  by (induction ss) auto

text \<open>
  Claim C6 as stated fails: when a source with the title \<^verbatim>\<open>First\<close> and then a source
  with the same uri and the title \<^verbatim>\<open>Second\<close> arrive, the collection holds one source
  for the uri, and its title is \<^verbatim>\<open>Second\<close>, not the first seen.
\<close>

theorem collectSources_keeps_later_title:
  "collectSources ex_chunks = [\<lparr>title = js ''Second'', uri = js ''u''\<rparr>]
   \<and> map title (collectSources ex_chunks) \<noteq> [js ''First'']"
  by (simp add: collectSources_def mergeSources_def ex_chunks_def js_def)

lemma fold_setEntry_keys:
  "map fst (fold (\<lambda>s m. setEntry (uri s) s m) ss m)
     = map fst m @ filter (\<lambda>k. k \<notin> set (map fst m)) (firstOccurrences (map uri ss))"
proof (induction ss arbitrary: m)
  case Nil
  show ?case by simp
next
  case (Cons s ss)
  let ?m' = "setEntry (uri s) s m"
  have IH: "map fst (fold (\<lambda>s m. setEntry (uri s) s m) ss ?m')
      = map fst ?m' @ filter (\<lambda>k. k \<notin> set (map fst ?m')) (firstOccurrences (map uri ss))"
    by (rule Cons.IH)
  show ?case
  proof (cases "uri s \<in> set (map fst m)")
    case True
    then have keys: "map fst ?m' = map fst m" by (simp add: setEntry_keys)
    have "filter (\<lambda>k. k \<notin> set (map fst m)) (firstOccurrences (map uri (s # ss)))
        = filter (\<lambda>k. k \<notin> set (map fst m)) (firstOccurrences (map uri ss))"
      using True by (auto intro: filter_cong)
    then show ?thesis using IH by (simp only: fold_simps keys)
  next
    case False
    then have keys: "map fst ?m' = map fst m @ [uri s]" by (simp add: setEntry_keys)
    have "filter (\<lambda>k. k \<notin> set (map fst m)) (firstOccurrences (map uri (s # ss)))
        = uri s # filter (\<lambda>k. k \<notin> set (map fst m @ [uri s])) (firstOccurrences (map uri ss))"
      using False by (auto intro: filter_cong)
    then show ?thesis using IH by (simp only: fold_simps keys) simp
  qed
qed

lemma fold_mergeSources_arriving:
  "fold (\<lambda>chunkSources m. mergeSources m chunkSources) chunks m
     = fold (\<lambda>s m. setEntry (uri s) s m) (arriving chunks) m"
proof (induction chunks arbitrary: m)
  case Nil
  show ?case by (simp add: arriving_def)
next
  case (Cons ch chunks)
  let ?ss = "case ch of None \<Rightarrow> [] | Some ss \<Rightarrow> ss"
  have step: "mergeSources m ch = fold (\<lambda>s m. setEntry (uri s) s m) ?ss m"
    by (cases ch) (simp_all add: mergeSources_def)
  have arr: "arriving (ch # chunks) = ?ss @ arriving chunks"
    by (simp add: arriving_def)
  have "fold (\<lambda>chunkSources m. mergeSources m chunkSources) (ch # chunks) m
      = fold (\<lambda>chunkSources m. mergeSources m chunkSources) chunks (mergeSources m ch)"
    by simp
  also have "\<dots> = fold (\<lambda>s m. setEntry (uri s) s m) (arriving chunks)
        (fold (\<lambda>s m. setEntry (uri s) s m) ?ss m)"
    by (simp only: Cons.IH step)
  also have "\<dots> = fold (\<lambda>s m. setEntry (uri s) s m) (arriving (ch # chunks)) m"
    by (simp only: arr fold_append comp_apply)
  finally show ?case .
qed

text \<open>
  Claim C6, amended.  The sources are deduplicated by uri: the collection holds each
  arriving uri once, in the order in which the uris were first seen.  For every uri
  the collection holds the title of the entry seen last for it: looking a uri up in the
  collection gives what looking it up in the arriving sequence gives when the sequence
  is read from its end.
\<close>

theorem collectSources_dedup_last_title:
  "map uri (collectSources chunks) = firstOccurrences (map uri (arriving chunks))
   \<and> distinct (map uri (collectSources chunks))
   \<and> map_of (map (\<lambda>s. (uri s, title s)) (collectSources chunks))
       = map_of (rev (map (\<lambda>s. (uri s, title s)) (arriving chunks)))"
proof -
  let ?m = "fold (\<lambda>chunkSources m. mergeSources m chunkSources) chunks []"
  have inv: "distinct (map fst ?m) \<and> list_all (\<lambda>e. uri (snd e) = fst e) ?m
      \<and> map_of ?m = map_of [] ++ map_of (rev (map (\<lambda>s. (uri s, s)) (arriving chunks)))"
    by (rule merge_chunks_invariants) simp_all
  have keys: "map uri (map snd ?m) = map fst ?m"
    using inv by (simp add: list_all_iff)
  have "map fst ?m = firstOccurrences (map uri (arriving chunks))"
    by (simp only: fold_mergeSources_arriving fold_setEntry_keys) simp
  then have order: "map uri (map snd ?m) = firstOccurrences (map uri (arriving chunks))"
    by (simp only: keys)
  have "map_of (map (\<lambda>s. (uri s, title s)) (map snd ?m)) u
      = map_of (rev (map (\<lambda>s. (uri s, title s)) (arriving chunks))) u" for u
  proof -
    have k: "list_all (\<lambda>e. uri (snd e) = fst e) ?m" using inv by blast
    have "map_of (map (\<lambda>s. (uri s, title s)) (map snd ?m)) u = map_option title (map_of ?m u)"
      by (rule keyed_map_of_title [OF k])
    also have "\<dots> = map_option title (map_of (map (\<lambda>s. (uri s, s)) (rev (arriving chunks))) u)"
      using inv by (simp add: rev_map)
    also have "\<dots> = map_of (map (\<lambda>s. (uri s, title s)) (rev (arriving chunks))) u"
      by (rule map_of_title [symmetric])
    finally show ?thesis by (simp only: rev_map)
  qed
  then have titles: "map_of (map (\<lambda>s. (uri s, title s)) (map snd ?m))
      = map_of (rev (map (\<lambda>s. (uri s, title s)) (arriving chunks)))"
    by (simp add: fun_eq_iff)
  have "distinct (map uri (map snd ?m))"
    using inv by (simp only: keys)
  then show ?thesis using order titles by (simp only: collectSources_def)
qed

section \<open>The table extractor: proofs\<close>

subsection \<open>Rows of the grid scanner\<close>

lemma collectRows_invariant:
  "list_all (\<lambda>r. length r = length (headers st)) (rowsData st) \<Longrightarrow>
   headers (collectRows lines j st) = headers st
   \<and> tableStartIndex (collectRows lines j st) = tableStartIndex st
   \<and> list_all (\<lambda>r. length r = length (headers st)) (rowsData (collectRows lines j st))"
proof (induction lines j st rule: collectRows.induct)
  case (1 lines j st)
  show ?case
  proof (cases "j < length lines \<and> str_includes pipe (lines ! j)
                \<and> length (parseRow (lines ! j)) = length (headers st)")
    case True
    let ?st' = "st\<lparr>rowsData := rowsData st @ [parseRow (lines ! j)], tableEndIndex := int j\<rparr>"
    have step: "collectRows lines j st = collectRows lines (Suc j) ?st'"
      using True by (subst collectRows.simps) (simp add: Let_def)
    have "list_all (\<lambda>r. length r = length (headers ?st')) (rowsData ?st')"
      using True "1.prems" by simp
    with "1.IH" [of "lines ! j" "parseRow (lines ! j)"] True
    have "headers (collectRows lines (Suc j) ?st') = headers ?st'
       \<and> tableStartIndex (collectRows lines (Suc j) ?st') = tableStartIndex ?st'
       \<and> list_all (\<lambda>r. length r = length (headers ?st'))
            (rowsData (collectRows lines (Suc j) ?st'))"
      by simp
    then show ?thesis by (simp add: step)
  next
    case False
    then have "collectRows lines j st = st"
      by (subst collectRows.simps) (auto simp: Let_def)
    then show ?thesis using "1.prems" by simp
  qed
qed

lemma scanFrom_rows:
  "list_all (\<lambda>r. length r = length (headers (scanFrom lines i))) (rowsData (scanFrom lines i))"
proof (induction lines i rule: scanFrom.induct)
  case (1 lines i)
  let ?sep = "lines ! (i + 1)"
  let ?hs = "parseRow (lines ! i)"
  let ?cols = "split_str pipe (replaceAll rxEdgePipesWs [] 0 ?sep)"
  let ?init = "\<lparr>tableStartIndex = int i, tableEndIndex = int i + 1, headers = ?hs, rowsData = []\<rparr>"
  show ?case
  proof (cases "int i < int (length lines) - 1")
    case False
    then have "scanFrom lines i
        = \<lparr>tableStartIndex = - 1, tableEndIndex = - 1, headers = [], rowsData = []\<rparr>"
      by (subst scanFrom.simps) simp
    then show ?thesis by simp
  next
    case True
    show ?thesis
    proof (cases "isSeparatorLine ?sep \<and> length ?hs > 0 \<and> length ?hs = length ?cols")
      case found: True
      have "scanFrom lines i = collectRows lines (i + 2) ?init"
        using True found by (subst scanFrom.simps) (simp add: Let_def)
      moreover have "list_all (\<lambda>r. length r = length (headers ?init)) (rowsData ?init)" by simp
      ultimately show ?thesis using collectRows_invariant [of ?init lines "i + 2"] by simp
    next
      case False
      then have "scanFrom lines i = scanFrom lines (Suc i)"
        using True by (subst scanFrom.simps) (auto simp: Let_def)
      moreover have "list_all (\<lambda>r. length r = length (headers (scanFrom lines (Suc i))))
          (rowsData (scanFrom lines (Suc i)))"
        using True False "1.IH" by (cases "isSeparatorLine ?sep") (auto simp: Let_def)
      ultimately show ?thesis by simp
    qed
  qed
qed

lemma rowsMatchHeaders_tableObject:
  "rowsMatchHeaders (tableObject hs rs) = list_all (\<lambda>r. length r = length hs) rs"
  by (simp add: rowsMatchHeaders_def tableObject_def js_def list_all_iff)

lemma internal_table_rows:
  "table (internalParseMarkdownForTable markdown) = Some t \<Longrightarrow> rowsMatchHeaders t"
proof -
  assume a: "table (internalParseMarkdownForTable markdown) = Some t"
  let ?st = "scanFrom (split_str newline markdown) 0"
  have "t = tableObject (headers ?st) (rowsData ?st)"
    using a by (simp add: internalParseMarkdownForTable_def Let_def split: if_splits)
  then show ?thesis
    using scanFrom_rows [of "split_str newline markdown" 0]
    by (simp add: rowsMatchHeaders_tableObject)
qed

lemma internal_no_table:
  "table (internalParseMarkdownForTable markdown) = None \<Longrightarrow>
   remainingText (internalParseMarkdownForTable markdown) = markdown"
  by (auto simp: internalParseMarkdownForTable_def Let_def split: if_splits)

subsection \<open>The fenced block\<close>

lemma validTable_Some:
  "validTable t = Inr (Some tb) \<Longrightarrow>
   tb = t \<and> isArray (case getProp t (js ''headers'') of Inr h \<Rightarrow> h | Inl e \<Rightarrow> None)
          \<and> isArray (case getProp t (js ''rows'') of Inr r \<Rightarrow> r | Inl e \<Rightarrow> None)"
  by (auto simp: validTable_def bindE_def split: if_splits sum.splits)

lemma tryBlock_returns:
  "tryBlock textToParse block jsonString = Inr (Some res) \<Longrightarrow>
   \<exists>parsedJson t. JSON_parse jsonString = Inr parsedJson
      \<and> getProp parsedJson (js ''table'') = Inr (Some t)
      \<and> validTable t = Inr (Some t)
      \<and> table res = Some t"
proof -
  assume a: "tryBlock textToParse block jsonString = Inr (Some res)"
  then obtain parsedJson where p: "JSON_parse jsonString = Inr parsedJson"
    by (auto simp: tryBlock_def bindE_def split: sum.splits)
  from a p obtain t where t: "getProp parsedJson (js ''table'') = Inr (Some t)"
    by (auto simp: tryBlock_def bindE_def split: sum.splits if_splits option.splits)
  from a p t obtain tb where v: "validTable t = Inr (Some tb)"
    by (auto simp: tryBlock_def bindE_def split: sum.splits if_splits option.splits)
  then have tb: "tb = t" by (simp add: validTable_Some)
  from a p t v have "table res = Some tb"
    by (auto simp: tryBlock_def bindE_def Let_def split: sum.splits if_splits option.splits)
  then show ?thesis using p t v tb by blast
qed

lemma tryBlock_invalid_table:
  "JSON_parse jsonString = Inr parsedJson \<Longrightarrow>
   getProp parsedJson (js ''table'') = Inr (Some t) \<Longrightarrow>
   validTable t = Inr None \<Longrightarrow>
   tryBlock textToParse block jsonString = Inr None"
  by (simp add: tryBlock_def bindE_def)

subsection \<open>Where the extractor's result comes from\<close>

lemma extract_cases:
  "(responseText = [] \<and> extractAndParseMarkdownTable responseText = \<lparr>remainingText = [], table = None\<rparr>)
   \<or> extractAndParseMarkdownTable responseText = internalParseMarkdownForTable responseText
   \<or> (\<exists>block jsonString. stringMatch rxJsonBlock (trim responseText) = Some (block, Some jsonString)
        \<and> tryBlock (trim responseText) block jsonString
            = Inr (Some (extractAndParseMarkdownTable responseText)))
   \<or> (\<exists>outside. extractAndParseMarkdownTable responseText = internalParseMarkdownForTable outside
        \<and> table (internalParseMarkdownForTable outside) \<noteq> None)"
proof (cases "responseText = []")
  case True
  then show ?thesis by (simp add: extractAndParseMarkdownTable_def)
next
  case False
  note ne = False
  show ?thesis
  proof (cases "stringMatch rxJsonBlock (trim responseText)")
    case None
    then show ?thesis using ne by (simp add: extractAndParseMarkdownTable_def)
  next
    case (Some m)
    obtain block group1 where m: "m = (block, group1)" by (cases m)
    show ?thesis
    proof (cases group1)
      case None
      then show ?thesis using ne Some m by (simp add: extractAndParseMarkdownTable_def)
    next
      case (Some jsonString)
      note g = Some
      have sm: "stringMatch rxJsonBlock (trim responseText) = Some (block, Some jsonString)"
        using \<open>stringMatch rxJsonBlock (trim responseText) = Some m\<close> m g by simp
      show ?thesis
      proof (cases "block \<noteq> [] \<and> jsonString \<noteq> []")
        case False
        then show ?thesis using ne sm by (auto simp: extractAndParseMarkdownTable_def)
      next
        case True
        show ?thesis
        proof (cases "tryBlock (trim responseText) block jsonString")
          case (Inr r)
          show ?thesis
          proof (cases r)
            case None
            then show ?thesis using ne sm True Inr
              by (simp add: extractAndParseMarkdownTable_def)
          next
            case (Some res)
            then have "extractAndParseMarkdownTable responseText = res"
              using ne sm True Inr by (simp add: extractAndParseMarkdownTable_def)
            then show ?thesis using sm Inr Some by simp
          qed
        next
          case (Inl e)
          let ?outside = "trim (replaceFirst block [] (trim responseText))"
          show ?thesis
          proof (cases "table (internalParseMarkdownForTable ?outside) = None")
            case True
            then show ?thesis using ne sm \<open>block \<noteq> [] \<and> jsonString \<noteq> []\<close> Inl
              by (simp add: extractAndParseMarkdownTable_def Let_def)
          next
            case False
            then have "extractAndParseMarkdownTable responseText
                = internalParseMarkdownForTable ?outside"
              using ne sm \<open>block \<noteq> [] \<and> jsonString \<noteq> []\<close> Inl
              by (simp add: extractAndParseMarkdownTable_def Let_def)
            then show ?thesis using False by metis
          qed
        qed
      qed
    qed
  qed
qed

subsection \<open>Text with no pipe and no backtick\<close>

lemma set_trim: "set (trim s) \<subseteq> set s"
proof -
  have "set (dropWhile isWhitespace (rev (dropWhile isWhitespace s)))
      \<subseteq> set (rev (dropWhile isWhitespace s))"
    by (rule set_dropWhileD [THEN subsetI])
  also have "\<dots> \<subseteq> set s" using set_dropWhileD [of _ isWhitespace s] by auto
  finally show ?thesis by (simp add: trim_def)
qed

lemma split_str_nonempty: "split_str sep s \<noteq> []"
  by (induction s) (auto split: list.splits)

lemma set_split_str: "l \<in> set (split_str sep s) \<Longrightarrow> set l \<subseteq> set s"
proof (induction s arbitrary: l)
  case Nil
  then show ?case by simp
next
  case (Cons x s)
  show ?case
  proof (cases "x = sep")
    case True
    then show ?thesis using Cons by auto
  next
    case False
    obtain seg segs where ss: "split_str sep s = seg # segs"
      using split_str_nonempty [of sep s] by (cases "split_str sep s") auto
    then have "l = x # seg \<or> l \<in> set segs" using Cons.prems False by simp
    moreover have "set seg \<subseteq> set s" using Cons.IH [of seg] ss by simp
    moreover have "l \<in> set segs \<Longrightarrow> set l \<subseteq> set s" using Cons.IH [of l] ss by simp
    ultimately show ?thesis by auto
  qed
qed

lemma isSeparatorLine_needs_pipe: "pipe \<notin> set line \<Longrightarrow> \<not> isSeparatorLine line"
  using set_trim [of line] by (auto simp: isSeparatorLine_def str_includes_def Let_def)

lemma scanFrom_no_separator:
  "\<forall>l \<in> set lines. \<not> isSeparatorLine l \<Longrightarrow>
   scanFrom lines i = \<lparr>tableStartIndex = - 1, tableEndIndex = - 1, headers = [], rowsData = []\<rparr>"
proof (induction lines i rule: scanFrom.induct)
  case (1 lines i)
  show ?case
  proof (cases "int i < int (length lines) - 1")
    case False
    then show ?thesis by (subst scanFrom.simps) simp
  next
    case True
    then have "lines ! (i + 1) \<in> set lines" by simp
    then have ns: "\<not> isSeparatorLine (lines ! (i + 1))" using "1.prems" by blast
    then have "scanFrom lines i = scanFrom lines (Suc i)"
      using True by (subst scanFrom.simps) (simp add: Let_def)
    then show ?thesis using "1.IH"(2) [OF True refl refl] ns "1.prems" by simp
  qed
qed

lemma internal_no_pipe:
  "pipe \<notin> set markdown \<Longrightarrow>
   internalParseMarkdownForTable markdown = \<lparr>remainingText = markdown, table = None\<rparr>"
proof -
  assume np: "pipe \<notin> set markdown"
  have "\<forall>l \<in> set (split_str newline markdown). \<not> isSeparatorLine l"
    using np set_split_str [of _ newline markdown] isSeparatorLine_needs_pipe by blast
  then show ?thesis
    by (simp add: internalParseMarkdownForTable_def Let_def scanFrom_no_separator)
qed

lemma matchAt_fence_needs_backtick:
  "(case s of [] \<Rightarrow> True | x # xs \<Rightarrow> x \<noteq> backtick) \<Longrightarrow> matchAt rxJsonBlock n s = None"
  by (cases s) (simp_all add: matchAt_def rxJsonBlock_def rxFence_def ms_basic)

lemma search_fence_needs_backtick:
  "backtick \<notin> set s \<Longrightarrow> search rxJsonBlock n s = None"
proof (induction s arbitrary: n)
  case Nil
  show ?case by (simp add: matchAt_fence_needs_backtick)
next
  case (Cons x s)
  then have "x \<noteq> backtick" by auto
  then have "matchAt rxJsonBlock n (x # s) = None"
    by (simp add: matchAt_fence_needs_backtick)
  then show ?case using Cons by simp
qed

lemma stringMatch_fence_needs_backtick:
  "backtick \<notin> set s \<Longrightarrow> stringMatch rxJsonBlock (trim s) = None"
proof -
  assume "backtick \<notin> set s"
  then have "backtick \<notin> set (trim s)" using set_trim [of s] by blast
  then show ?thesis by (simp add: stringMatch_def search_fence_needs_backtick)
qed

subsection \<open>The extractor on concrete inputs\<close>

lemma eval_grid:
  "extractAndParseMarkdownTable ex_gridText
     = \<lparr>remainingText = js ''Intro text.\<newline>\<newline>\<newline>Outro text.'',
        table = Some ex_gridTable\<rparr>"
  by code_simp

lemma eval_malformed:
  "extractAndParseMarkdownTable ex_malformed = \<lparr>remainingText = ex_malformed, table = None\<rparr>"
  by code_simp

lemma eval_ragged:
  "extractAndParseMarkdownTable ex_ragged = \<lparr>remainingText = [], table = Some ex_raggedTable\<rparr>"
  by code_simp

lemma eval_ragged_rows: "\<not> rowsMatchHeaders ex_raggedTable"
  by code_simp

lemma eval_fence_match:
  "stringMatch rxJsonBlock (trim ex_fenceRow) = Some (ex_fenceBlock, Some ex_fencePayload)"
  by code_simp

lemma eval_fence_parse: "JSON_parse ex_fencePayload = Inr ex_fenceJson"
  by code_simp

lemma eval_fence_table:
  "getProp ex_fenceJson (js ''table'') = Inr (Some (JNumber 1 0))
   \<and> validTable (JNumber 1 0) = Inr None"
  by code_simp

lemma eval_fence_outside:
  "internalParseMarkdownForTable (trim (replaceFirst ex_fenceBlock [] (trim ex_fenceRow)))
     = \<lparr>remainingText = js ''| a | b |\<newline>|---|---|'', table = None\<rparr>"
  by code_simp

lemma eval_fence_whole:
  "internalParseMarkdownForTable ex_fenceRow = \<lparr>remainingText = [], table = Some ex_fenceTable\<rparr>"
  by code_simp

subsection \<open>The table invariant\<close>

text \<open>
  Claim C1 as stated fails for a table taken from a fenced JSON block: the block of
  \<open>ex_ragged\<close> has two headers and one row of one cell, and the extractor returns that
  table as it was parsed.
\<close>

theorem json_table_rows_unchecked:
  "table (extractAndParseMarkdownTable ex_ragged) = Some ex_raggedTable
   \<and> \<not> rowsMatchHeaders ex_raggedTable"
  by (simp add: eval_ragged eval_ragged_rows)

text \<open>
  Claim C1, amended.  A table found by the plain grid scanner has \<^verbatim>\<open>headers\<close> and
  \<^verbatim>\<open>rows\<close> arrays and every row as long as the headers.  For every response text, a
  table that the extractor returns either satisfies this invariant or is the value under
  \<^verbatim>\<open>table\<close> in the JSON of the fenced block, of which the extractor has checked that
  \<^verbatim>\<open>headers\<close> and \<^verbatim>\<open>rows\<close> are arrays and nothing more.
\<close>

theorem extracted_table_rows:
  "(table (internalParseMarkdownForTable markdown) = Some g \<longrightarrow> rowsMatchHeaders g)
   \<and> (table (extractAndParseMarkdownTable responseText) = Some t \<longrightarrow>
        rowsMatchHeaders t
        \<or> (\<exists>block jsonString parsedJson.
              stringMatch rxJsonBlock (trim responseText) = Some (block, Some jsonString)
              \<and> JSON_parse jsonString = Inr parsedJson
              \<and> getProp parsedJson (js ''table'') = Inr (Some t)
              \<and> validTable t = Inr (Some t)))"
proof -
  have grid: "table (internalParseMarkdownForTable md) = Some x \<Longrightarrow> rowsMatchHeaders x" for md x
    by (rule internal_table_rows)
  have "rowsMatchHeaders t
        \<or> (\<exists>block jsonString parsedJson.
              stringMatch rxJsonBlock (trim responseText) = Some (block, Some jsonString)
              \<and> JSON_parse jsonString = Inr parsedJson
              \<and> getProp parsedJson (js ''table'') = Inr (Some t)
              \<and> validTable t = Inr (Some t))"
    if t: "table (extractAndParseMarkdownTable responseText) = Some t"
  proof -
    consider
      (empty) "extractAndParseMarkdownTable responseText = \<lparr>remainingText = [], table = None\<rparr>"
    | (whole) "extractAndParseMarkdownTable responseText = internalParseMarkdownForTable responseText"
    | (json) block jsonString where
        "stringMatch rxJsonBlock (trim responseText) = Some (block, Some jsonString)"
        "tryBlock (trim responseText) block jsonString
            = Inr (Some (extractAndParseMarkdownTable responseText))"
    | (outside) outside where
        "extractAndParseMarkdownTable responseText = internalParseMarkdownForTable outside"
      using extract_cases [of responseText] by blast
    then show ?thesis
    proof cases
      case empty
      then show ?thesis using t by simp
    next
      case whole
      then show ?thesis using t grid [of responseText t] by simp
    next
      case json
      from tryBlock_returns [OF json(2)] obtain parsedJson u where
        "JSON_parse jsonString = Inr parsedJson"
        "getProp parsedJson (js ''table'') = Inr (Some u)"
        "validTable u = Inr (Some u)"
        "table (extractAndParseMarkdownTable responseText) = Some u"
        by blast
      then show ?thesis using t json(1) by auto
    next
      case outside
      then show ?thesis using t grid [of outside t] by simp
    qed
  qed
  then show ?thesis using grid by blast
qed

theorem extracted_table_rows_witness:
  "table (internalParseMarkdownForTable ex_fenceRow) = Some ex_fenceTable
   \<and> rowsMatchHeaders ex_fenceTable
   \<and> table (extractAndParseMarkdownTable ex_gridText) = Some ex_gridTable
   \<and> rowsMatchHeaders ex_gridTable"
proof -
  have h1: "table (internalParseMarkdownForTable ex_fenceRow) = Some ex_fenceTable"
    by (simp add: eval_fence_whole)
  have h2: "table (extractAndParseMarkdownTable ex_gridText) = Some ex_gridTable"
    by (simp add: eval_grid)
  have json_rows: "getProp ex_gridTable (js ''headers'')
      = Inr (Some (JArray [JString (js ''Name''), JString (js ''Score'')]))"
    by (simp add: ex_gridTable_def tableObject_def js_def)
  note T = extracted_table_rows [of ex_fenceRow ex_fenceTable ex_gridText ex_gridTable]
  have c1: "rowsMatchHeaders ex_fenceTable" using T h1 by blast
  have "rowsMatchHeaders ex_gridTable
        \<or> (\<exists>block jsonString parsedJson.
              stringMatch rxJsonBlock (trim ex_gridText) = Some (block, Some jsonString)
              \<and> JSON_parse jsonString = Inr parsedJson
              \<and> getProp parsedJson (js ''table'') = Inr (Some ex_gridTable)
              \<and> validTable ex_gridTable = Inr (Some ex_gridTable))"
    using T h2 by blast
  moreover have "stringMatch rxJsonBlock (trim ex_gridText) = None"
    by (rule stringMatch_fence_needs_backtick)
       (simp add: ex_gridText_def js_def backtick_def)
  ultimately have c2: "rowsMatchHeaders ex_gridTable" by simp
  show ?thesis using h1 c1 h2 c2 by blast
qed

subsection \<open>A fenced block with an invalid table\<close>

text \<open>
  Claim C2 as stated fails.  The fenced block of \<open>ex_fenceRow\<close> holds JSON whose
  \<^verbatim>\<open>table\<close> is the number \<open>1\<close>, and a grid header and separator stand before the
  block.  The scan of the text outside the block alone finds no table (there is no data
  row), but the extractor returns a table whose one row is cut out of the line of the
  fenced block: it scanned the whole response text.
\<close>

theorem invalid_table_block_is_scanned:
  "stringMatch rxJsonBlock (trim ex_fenceRow) = Some (ex_fenceBlock, Some ex_fencePayload)
   \<and> JSON_parse ex_fencePayload = Inr ex_fenceJson
   \<and> getProp ex_fenceJson (js ''table'') = Inr (Some (JNumber 1 0))
   \<and> validTable (JNumber 1 0) = Inr None
   \<and> table (internalParseMarkdownForTable
              (trim (replaceFirst ex_fenceBlock [] (trim ex_fenceRow)))) = None
   \<and> table (extractAndParseMarkdownTable ex_fenceRow) = Some ex_fenceTable"
proof -
  have "tryBlock (trim ex_fenceRow) ex_fenceBlock ex_fencePayload = Inr None"
    using eval_fence_parse eval_fence_table by (simp add: tryBlock_invalid_table)
  moreover have "ex_fenceRow \<noteq> []" "ex_fenceBlock \<noteq> []" "ex_fencePayload \<noteq> []"
    by (simp_all add: ex_fenceRow_def ex_fenceBlock_def ex_fencePayload_def js_def)
  ultimately have "extractAndParseMarkdownTable ex_fenceRow
      = internalParseMarkdownForTable ex_fenceRow"
    using eval_fence_match by (simp add: extractAndParseMarkdownTable_def Let_def)
  then show ?thesis
    using eval_fence_match eval_fence_parse eval_fence_table
    by (simp add: eval_fence_outside eval_fence_whole)
qed

text \<open>
  Claim C2, amended.  For every input with a fenced block whose payload parses as JSON
  and whose \<^verbatim>\<open>table\<close> value is structurally invalid (not an object, or \<^verbatim>\<open>headers\<close> or
  \<^verbatim>\<open>rows\<close> missing or not an array), the extractor treats the block as holding no table
  and returns what the plain grid scan of the whole original response text returns, the
  fenced block included.
\<close>

theorem invalid_table_scans_whole_text:
  "stringMatch rxJsonBlock (trim responseText) = Some (block, Some jsonString)
   \<and> JSON_parse jsonString = Inr parsedJson
   \<and> getProp parsedJson (js ''table'') = Inr (Some t)
   \<and> validTable t = Inr None
   \<longrightarrow> extractAndParseMarkdownTable responseText = internalParseMarkdownForTable responseText"
proof
  assume a: "stringMatch rxJsonBlock (trim responseText) = Some (block, Some jsonString)
   \<and> JSON_parse jsonString = Inr parsedJson
   \<and> getProp parsedJson (js ''table'') = Inr (Some t)
   \<and> validTable t = Inr None"
  then have tb: "tryBlock (trim responseText) block jsonString = Inr None"
    by (simp add: tryBlock_invalid_table)
  have "stringMatch rxJsonBlock (trim []) = None"
    by (rule stringMatch_fence_needs_backtick) simp
  then have ne: "responseText \<noteq> []" using a by auto
  show "extractAndParseMarkdownTable responseText = internalParseMarkdownForTable responseText"
    using a tb ne by (simp add: extractAndParseMarkdownTable_def Let_def)
qed

theorem invalid_table_scans_whole_text_witness:
  "stringMatch rxJsonBlock (trim ex_fenceRow) = Some (ex_fenceBlock, Some ex_fencePayload)
   \<and> JSON_parse ex_fencePayload = Inr ex_fenceJson
   \<and> getProp ex_fenceJson (js ''table'') = Inr (Some (JNumber 1 0))
   \<and> validTable (JNumber 1 0) = Inr None
   \<and> extractAndParseMarkdownTable ex_fenceRow = internalParseMarkdownForTable ex_fenceRow"
  using invalid_table_scans_whole_text
          [of ex_fenceRow ex_fenceBlock ex_fencePayload ex_fenceJson "JNumber 1 0"]
        eval_fence_match eval_fence_parse eval_fence_table
  by blast

subsection \<open>The grid example\<close>

text \<open>
  Claim C5 as stated fails on the remaining text: the blank line before the table and
  the blank line after it are both kept, so the intro and the outro are three line
  breaks apart, not two.
\<close>

theorem grid_example_not_two_newlines:
  "remainingText (extractAndParseMarkdownTable ex_gridText)
     \<noteq> js ''Intro text.\<newline>\<newline>Outro text.''"
  by (simp add: eval_grid js_def)

text \<open>
  Claim C5, amended.  For the input of the claim (\<open>ex_gridText\<close>) the extractor returns
  the table with the headers \<^verbatim>\<open>Name\<close>, \<^verbatim>\<open>Score\<close> and the rows \<^verbatim>\<open>Alice\<close>, \<^verbatim>\<open>90\<close> and
  \<^verbatim>\<open>Bob\<close>, \<^verbatim>\<open>85\<close>, and the remaining text is the intro line, two empty lines and the
  outro line: the header, separator and row lines are removed and every other line is
  kept in its order.
\<close>

theorem grid_example_extracted:
  "extractAndParseMarkdownTable ex_gridText
     = \<lparr>remainingText = js ''Intro text.\<newline>\<newline>\<newline>Outro text.'',
        table = Some (tableObject [js ''Name'', js ''Score'']
                        [[js ''Alice'', js ''90''], [js ''Bob'', js ''85'']])\<rparr>"
  by (simp add: eval_grid ex_gridTable_def)

subsection \<open>No table\<close>

text \<open>
  Claim C9.  The extractor is a total function with no error result: the only
  statements that can throw stand in the \<^verbatim>\<open>try\<close> block, and its handler cannot throw.
  Whenever it returns no table, the remaining text is the original input; and for a
  text with no pipe character and no backtick (so no fenced block) it returns no table.
\<close>

theorem no_table_returns_input:
  "(table (extractAndParseMarkdownTable responseText) = None \<longrightarrow>
      remainingText (extractAndParseMarkdownTable responseText) = responseText)
   \<and> (\<not> str_includes pipe prose \<and> \<not> str_includes backtick prose \<longrightarrow>
        extractAndParseMarkdownTable prose = \<lparr>remainingText = prose, table = None\<rparr>)"
proof -
  have first: "remainingText (extractAndParseMarkdownTable responseText) = responseText"
    if n: "table (extractAndParseMarkdownTable responseText) = None"
  proof -
    consider
      (empty) "responseText = []"
        "extractAndParseMarkdownTable responseText = \<lparr>remainingText = [], table = None\<rparr>"
    | (whole) "extractAndParseMarkdownTable responseText = internalParseMarkdownForTable responseText"
    | (json) block jsonString where
        "tryBlock (trim responseText) block jsonString
            = Inr (Some (extractAndParseMarkdownTable responseText))"
    | (outside) outside where
        "extractAndParseMarkdownTable responseText = internalParseMarkdownForTable outside"
        "table (internalParseMarkdownForTable outside) \<noteq> None"
      using extract_cases [of responseText] by blast
    then show ?thesis
    proof cases
      case empty
      then show ?thesis by simp
    next
      case whole
      then show ?thesis using n internal_no_table [of responseText] by simp
    next
      case json
      then show ?thesis using n tryBlock_returns [OF json] by auto
    next
      case outside
      then show ?thesis using n by simp
    qed
  qed
  have second: "extractAndParseMarkdownTable prose = \<lparr>remainingText = prose, table = None\<rparr>"
    if p: "\<not> str_includes pipe prose \<and> \<not> str_includes backtick prose"
  proof -
    have np: "pipe \<notin> set prose" and nb: "backtick \<notin> set prose"
      using p by (simp_all add: str_includes_def)
    have i: "internalParseMarkdownForTable prose = \<lparr>remainingText = prose, table = None\<rparr>"
      using np by (rule internal_no_pipe)
    have "stringMatch rxJsonBlock (trim prose) = None"
      using nb by (rule stringMatch_fence_needs_backtick)
    then show ?thesis using i
      by (cases "prose = []") (simp_all add: extractAndParseMarkdownTable_def)
  qed
  show ?thesis using first second by blast
qed

theorem no_table_returns_input_witness:
  "table (extractAndParseMarkdownTable ex_malformed) = None
   \<and> remainingText (extractAndParseMarkdownTable ex_malformed) = ex_malformed
   \<and> \<not> str_includes pipe ex_prose
   \<and> \<not> str_includes backtick ex_prose
   \<and> extractAndParseMarkdownTable ex_prose = \<lparr>remainingText = ex_prose, table = None\<rparr>"
proof -
  have h1: "table (extractAndParseMarkdownTable ex_malformed) = None"
    by (simp add: eval_malformed)
  have h2: "\<not> str_includes pipe ex_prose \<and> \<not> str_includes backtick ex_prose"
    by (simp add: str_includes_def ex_prose_def js_def pipe_def backtick_def)
  note T = no_table_returns_input [of ex_malformed ex_prose]
  have "remainingText (extractAndParseMarkdownTable ex_malformed) = ex_malformed"
    using T h1 by blast
  moreover have "extractAndParseMarkdownTable ex_prose = \<lparr>remainingText = ex_prose, table = None\<rparr>"
    using T h2 by blast
  ultimately show ?thesis using h1 h2 by blast
qed

section \<open>The separator line: proofs\<close>

subsection \<open>Stripping the edge pipes\<close>

lemma matchAt_edgePipes:
  "matchAt rxEdgePipes n s =
     (case s of
        [] \<Rightarrow> None
      | x # xs \<Rightarrow>
          if x = pipe \<and> (n = 0 \<or> xs = [])
          then Some \<lparr>pos = Suc n, rest = xs, capture = None\<rparr> else None)"
  by (cases s) (auto simp: matchAt_def rxEdgePipes_def ms_basic)

lemma replaceAll_edgePipes_later:
  "0 < n \<Longrightarrow>
   replaceAll rxEdgePipes [] n s
     = (case rev s of [] \<Rightarrow> [] | c # cs \<Rightarrow> if c = pipe then rev cs else s)"
proof (induction s arbitrary: n)
  case Nil
  show ?case by (subst replaceAll.simps) (simp add: matchAt_edgePipes)
next
  case (Cons x xs)
  show ?case
  proof (cases "x = pipe \<and> xs = []")
    case True
    have "replaceAll rxEdgePipes [] n (x # xs) = replaceAll rxEdgePipes [] (Suc n) []"
      using True Cons.prems by (subst replaceAll.simps) (simp add: matchAt_edgePipes)
    also have "\<dots> = []" by (subst replaceAll.simps) (simp add: matchAt_edgePipes)
    finally show ?thesis using True by simp
  next
    case False
    have "replaceAll rxEdgePipes [] n (x # xs) = x # replaceAll rxEdgePipes [] (Suc n) xs"
      using False Cons.prems by (subst replaceAll.simps) (auto simp: matchAt_edgePipes)
    also have "\<dots> = x # (case rev xs of [] \<Rightarrow> [] | c # cs \<Rightarrow> if c = pipe then rev cs else xs)"
      by (simp add: Cons.IH)
    finally show ?thesis using False by (cases "rev xs") auto
  qed
qed

lemma replaceAll_edgePipes: "replaceAll rxEdgePipes [] 0 s = stripEdgePipes s"
proof (cases s)
  case Nil
  then show ?thesis
    by (subst replaceAll.simps) (simp add: matchAt_edgePipes stripEdgePipes_def)
next
  case (Cons x xs)
  show ?thesis
  proof (cases "x = pipe")
    case True
    have "replaceAll rxEdgePipes [] 0 (x # xs) = replaceAll rxEdgePipes [] (Suc 0) xs"
      using True by (subst replaceAll.simps) (simp add: matchAt_edgePipes)
    then show ?thesis using Cons True
      by (simp add: replaceAll_edgePipes_later stripEdgePipes_def)
  next
    case False
    have "replaceAll rxEdgePipes [] 0 (x # xs) = x # replaceAll rxEdgePipes [] (Suc 0) xs"
      using False by (subst replaceAll.simps) (simp add: matchAt_edgePipes)
    then show ?thesis using Cons False
      by (cases "rev xs") (auto simp: replaceAll_edgePipes_later stripEdgePipes_def)
  qed
qed

lemma set_stripEdgePipes: "set (stripEdgePipes s) \<subseteq> set s"
proof -
  let ?s1 = "case s of [] \<Rightarrow> [] | c # cs \<Rightarrow> if c = pipe then cs else s"
  have s1: "set ?s1 \<subseteq> set s" by (cases s) auto
  have "set (case rev ?s1 of [] \<Rightarrow> [] | c # cs \<Rightarrow> if c = pipe then rev cs else ?s1) \<subseteq> set ?s1"
  proof (cases "rev ?s1")
    case Nil
    then show ?thesis by simp
  next
    case (Cons c cs)
    then have "set cs \<subseteq> set (rev ?s1)" by auto
    then show ?thesis using Cons by auto
  qed
  then show ?thesis using s1 by (simp add: stripEdgePipes_def Let_def)
qed

subsection \<open>The segment pattern\<close>

text \<open>
  What a continuation accepts, as a predicate on the input that is left; the rules
  below build it for the pattern from its end.
\<close>

lemma ms_Seq_accepts: "(ms (Seq a b) c \<noteq> []) = (\<exists>c' \<in> set (ms a c). ms b c' \<noteq> [])"
  by (auto simp: ms_basic)

lemma accepts_Eol: "(ms Eol c \<noteq> []) = (rest c = [])"
  by (simp add: ms_basic)

lemma accepts_Chr:
  assumes K: "\<And>c. (ms K c \<noteq> []) = P (rest c)"
  shows "(ms (Seq (Chr a) K) c \<noteq> []) = (case rest c of [] \<Rightarrow> False | x # xs \<Rightarrow> x = a \<and> P xs)"
  by (cases "rest c") (simp_all add: K ms_basic)

lemma accepts_Opt_Chr:
  assumes K: "\<And>c. (ms K c \<noteq> []) = P (rest c)"
  shows "(ms (Seq (Opt (Chr a)) K) c \<noteq> [])
           = ((case rest c of [] \<Rightarrow> False | x # xs \<Rightarrow> x = a \<and> P xs) \<or> P (rest c))"
  by (cases "rest c") (auto simp: K ms_basic)

lemma accepts_Seq_assoc:
  "(ms (Seq (Seq a b) K) c \<noteq> []) = (ms (Seq a (Seq b K)) c \<noteq> [])"
  by (auto simp: ms_basic)

lemma ms_Star_single:
  assumes X: "\<And>c. ms X c =
      (case rest c of [] \<Rightarrow> [] | x # xs \<Rightarrow> if p x then [c\<lparr>pos := Suc (pos c), rest := xs\<rparr>] else [])"
  shows "set (ms (Star X) c)
           = {c\<lparr>pos := pos c + k, rest := drop k (rest c)\<rparr> | k. k \<le> length (takeWhile p (rest c))}"
proof (induction "rest c" arbitrary: c)
  case Nil
  have "rest c = []" by (rule Nil.hyps [symmetric])
  then show ?case by (subst ms.simps) (simp add: X)
next
  case (Cons x xs)
  have r: "rest c = x # xs" by (rule Cons.hyps(2) [symmetric])
  show ?case
  proof (cases "p x")
    case False
    then show ?thesis using r by (subst ms.simps) (simp add: X)
  next
    case True
    let ?c1 = "c\<lparr>pos := Suc (pos c), rest := xs\<rparr>"
    have step: "ms (Star X) c = ms (Star X) ?c1 @ [c]"
      using True r by (subst ms.simps) (simp add: X)
    have IH: "set (ms (Star X) ?c1)
        = {?c1\<lparr>pos := pos ?c1 + k, rest := drop k (rest ?c1)\<rparr> | k. k \<le> length (takeWhile p (rest ?c1))}"
      by (rule Cons.hyps(1)) simp
    have c1: "?c1\<lparr>pos := pos ?c1 + k, rest := drop k (rest ?c1)\<rparr>
        = c\<lparr>pos := pos c + Suc k, rest := drop (Suc k) (rest c)\<rparr>" for k
      by (simp add: r)
    have "set (ms (Star X) c) = insert c (set (ms (Star X) ?c1))"
      by (simp only: step set_append list.set Un_insert_right Un_empty_right)
    also have "\<dots> = insert c {?c1\<lparr>pos := pos ?c1 + k, rest := drop k (rest ?c1)\<rparr> | k.
          k \<le> length (takeWhile p (rest ?c1))}"
      by (simp only: IH)
    also have "\<dots> = insert c {c\<lparr>pos := pos c + Suc k, rest := drop (Suc k) (rest c)\<rparr> | k.
          k \<le> length (takeWhile p xs)}"
      by (simp only: c1) simp
    also have "\<dots> = {c\<lparr>pos := pos c + k, rest := drop k (rest c)\<rparr> | k. k \<le> length (takeWhile p (rest c))}"
    proof (rule set_eqI, rule iffI)
      fix d
      assume "d \<in> insert c {c\<lparr>pos := pos c + Suc k, rest := drop (Suc k) (rest c)\<rparr> | k. k \<le> length (takeWhile p xs)}"
      then consider "d = c" | k where "d = c\<lparr>pos := pos c + Suc k, rest := drop (Suc k) (rest c)\<rparr>" "k \<le> length (takeWhile p xs)"
        by blast
      then show "d \<in> {c\<lparr>pos := pos c + k, rest := drop k (rest c)\<rparr> | k. k \<le> length (takeWhile p (rest c))}"
      proof cases
        case 1
        then have "d = c\<lparr>pos := pos c + 0, rest := drop 0 (rest c)\<rparr>" by simp
        then show ?thesis by blast
      next
        case 2
        then have "Suc k \<le> length (takeWhile p (rest c))" using True r by simp
        then show ?thesis using 2(1) by blast
      qed
    next
      fix d
      assume "d \<in> {c\<lparr>pos := pos c + k, rest := drop k (rest c)\<rparr> | k. k \<le> length (takeWhile p (rest c))}"
      then obtain k where k: "d = c\<lparr>pos := pos c + k, rest := drop k (rest c)\<rparr>"
        "k \<le> length (takeWhile p (rest c))" by blast
      show "d \<in> insert c {c\<lparr>pos := pos c + Suc k, rest := drop (Suc k) (rest c)\<rparr> | k. k \<le> length (takeWhile p xs)}"
      proof (cases k)
        case 0
        then show ?thesis using k by simp
      next
        case (Suc j)
        then have "j \<le> length (takeWhile p xs)" using k(2) True r by simp
        then show ?thesis using k(1) Suc by blast
      qed
    qed
    finally show ?thesis .
  qed
qed

lemma accepts_Star_single:
  assumes X: "\<And>c. ms X c =
      (case rest c of [] \<Rightarrow> [] | x # xs \<Rightarrow> if p x then [c\<lparr>pos := Suc (pos c), rest := xs\<rparr>] else [])"
    and K: "\<And>c. (ms K c \<noteq> []) = P (rest c)"
    and stop: "\<And>x xs. P (x # xs) \<Longrightarrow> \<not> p x"
  shows "(ms (Seq (Star X) K) c \<noteq> []) = P (dropWhile p (rest c))"
proof -
  have "(ms (Seq (Star X) K) c \<noteq> [])
      = (\<exists>k. k \<le> length (takeWhile p (rest c)) \<and> P (drop k (rest c)))"
    by (simp only: ms_Seq_accepts ms_Star_single [of X p, OF X] K) auto
  also have "\<dots> = P (dropWhile p (rest c))"
  proof
    assume "\<exists>k. k \<le> length (takeWhile p (rest c)) \<and> P (drop k (rest c))"
    then obtain k where k: "k \<le> length (takeWhile p (rest c))" "P (drop k (rest c))" by blast
    have "k = length (takeWhile p (rest c))"
    proof (rule ccontr)
      assume "k \<noteq> length (takeWhile p (rest c))"
      then have lt: "k < length (takeWhile p (rest c))" using k(1) by simp
      then have "k < length (rest c)"
        using length_takeWhile_le [of p "rest c"] by simp
      then have d: "drop k (rest c) = (rest c ! k) # drop (Suc k) (rest c)"
        by (simp add: Cons_nth_drop_Suc)
      have "p (rest c ! k)"
        using lt by (metis nth_mem set_takeWhileD takeWhile_nth)
      then show False using k(2) d stop by metis
    qed
    then show "P (dropWhile p (rest c))" using k(2) by (simp add: dropWhile_eq_drop)
  next
    assume "P (dropWhile p (rest c))"
    then have "P (drop (length (takeWhile p (rest c))) (rest c))"
      by (simp add: dropWhile_eq_drop)
    then show "\<exists>k. k \<le> length (takeWhile p (rest c)) \<and> P (drop k (rest c))" by blast
  qed
  finally show ?thesis .
qed

lemma ms_Cls_single:
  "ms (Cls p) c =
     (case rest c of [] \<Rightarrow> [] | x # xs \<Rightarrow> if p x then [c\<lparr>pos := Suc (pos c), rest := xs\<rparr>] else [])"
  by (simp add: ms_basic)

lemma ms_Chr_single:
  "ms (Chr a) c =
     (case rest c of [] \<Rightarrow> [] | x # xs \<Rightarrow> if (\<lambda>y. y = a) x then [c\<lparr>pos := Suc (pos c), rest := xs\<rparr>] else [])"
  by (simp add: ms_basic)

lemma not_whitespace [simp]:
  "\<not> isWhitespace colon" "\<not> isWhitespace dash" "\<not> isWhitespace pipe"
  by (simp_all add: isWhitespace_def colon_def dash_def pipe_def)

lemma colon_not_dash [simp]: "colon \<noteq> dash" "dash \<noteq> colon"
  by (simp_all add: colon_def dash_def)

lemma accepts_tail4:
  "(ms (Seq (Star (Cls isWhitespace)) Eol) c \<noteq> []) = (dropWhile isWhitespace (rest c) = [])"
  by (rule accepts_Star_single [of "Cls isWhitespace" isWhitespace Eol "\<lambda>s. s = []"])
     (simp_all only: ms_Cls_single accepts_Eol, simp)

lemma accepts_tail3:
  "(ms (Seq (Opt (Chr colon)) (Seq (Star (Cls isWhitespace)) Eol)) c \<noteq> [])
     = (dropWhile isWhitespace (dropColon (rest c)) = [])"
proof -
  have "(ms (Seq (Opt (Chr colon)) (Seq (Star (Cls isWhitespace)) Eol)) c \<noteq> [])
      = ((case rest c of [] \<Rightarrow> False | x # xs \<Rightarrow> x = colon \<and> dropWhile isWhitespace xs = [])
          \<or> dropWhile isWhitespace (rest c) = [])"
    by (rule accepts_Opt_Chr [of _ "\<lambda>s. dropWhile isWhitespace s = []"]) (rule accepts_tail4)
  also have "\<dots> = (dropWhile isWhitespace (dropColon (rest c)) = [])"
    by (cases "rest c") (auto simp: dropColon_def)
  finally show ?thesis .
qed

lemma accepts_tail2:
  "(ms (Seq (Seq (Chr dash) (Star (Chr dash)))
          (Seq (Opt (Chr colon)) (Seq (Star (Cls isWhitespace)) Eol))) c \<noteq> [])
     = dashesThenEnd (rest c)"
proof -
  let ?K3 = "Seq (Opt (Chr colon)) (Seq (Star (Cls isWhitespace)) Eol)"
  let ?P3 = "\<lambda>s. dropWhile isWhitespace (dropColon s) = []"
  have stop: "?P3 (x # xs) \<Longrightarrow> \<not> (\<lambda>y. y = dash) x" for x xs
    by (auto simp: dropColon_def split: if_splits)
  have star: "(ms (Seq (Star (Chr dash)) ?K3) c \<noteq> []) = ?P3 (dropWhile (\<lambda>y. y = dash) (rest c))" for c
    by (rule accepts_Star_single [of "Chr dash" "\<lambda>y. y = dash" ?K3 ?P3])
       (rule ms_Chr_single, rule accepts_tail3, rule stop)
  have "(ms (Seq (Seq (Chr dash) (Star (Chr dash))) ?K3) c \<noteq> [])
      = (ms (Seq (Chr dash) (Seq (Star (Chr dash)) ?K3)) c \<noteq> [])"
    by (rule accepts_Seq_assoc)
  also have "\<dots> = (case rest c of [] \<Rightarrow> False
        | x # xs \<Rightarrow> x = dash \<and> ?P3 (dropWhile (\<lambda>y. y = dash) xs))"
    by (rule accepts_Chr [of _ "\<lambda>s. ?P3 (dropWhile (\<lambda>y. y = dash) s)"]) (rule star)
  finally show ?thesis by (simp add: dashesThenEnd_def)
qed

lemma accepts_tail1:
  "(ms (Seq (Opt (Chr colon)) (Seq (Seq (Chr dash) (Star (Chr dash)))
          (Seq (Opt (Chr colon)) (Seq (Star (Cls isWhitespace)) Eol)))) c \<noteq> [])
     = dashesThenEnd (dropColon (rest c))"
proof -
  let ?K2 = "Seq (Seq (Chr dash) (Star (Chr dash)))
          (Seq (Opt (Chr colon)) (Seq (Star (Cls isWhitespace)) Eol))"
  have "(ms (Seq (Opt (Chr colon)) ?K2) c \<noteq> [])
      = ((case rest c of [] \<Rightarrow> False | x # xs \<Rightarrow> x = colon \<and> dashesThenEnd xs)
          \<or> dashesThenEnd (rest c))"
    by (rule accepts_Opt_Chr [of _ dashesThenEnd]) (rule accepts_tail2)
  also have "\<dots> = dashesThenEnd (dropColon (rest c))"
    by (cases "rest c") (auto simp: dropColon_def dashesThenEnd_def)
  finally show ?thesis .
qed

lemma accepts_body:
  "(ms (Seq (Star (Cls isWhitespace)) (Seq (Opt (Chr colon)) (Seq (Seq (Chr dash) (Star (Chr dash)))
          (Seq (Opt (Chr colon)) (Seq (Star (Cls isWhitespace)) Eol))))) c \<noteq> [])
     = dashesThenEnd (dropColon (dropWhile isWhitespace (rest c)))"
proof -
  let ?K1 = "Seq (Opt (Chr colon)) (Seq (Seq (Chr dash) (Star (Chr dash)))
          (Seq (Opt (Chr colon)) (Seq (Star (Cls isWhitespace)) Eol)))"
  let ?P1 = "\<lambda>s. dashesThenEnd (dropColon s)"
  have stop: "?P1 (x # xs) \<Longrightarrow> \<not> isWhitespace x" for x xs
    by (auto simp: dropColon_def dashesThenEnd_def split: if_splits list.splits)
  show ?thesis
    by (rule accepts_Star_single [of "Cls isWhitespace" isWhitespace ?K1 ?P1])
       (rule ms_Cls_single, rule accepts_tail1, rule stop)
qed

lemma search_Bol_later: "0 < n \<Longrightarrow> search (Seq Bol K) n s = None"
  by (induction s arbitrary: n) (simp_all add: matchAt_def ms_basic)

lemma test_Bol:
  "test (Seq Bol K) s = (ms K \<lparr>pos = 0, rest = s, capture = None\<rparr> \<noteq> [])"
proof (cases s)
  case Nil
  then show ?thesis by (simp add: test_def matchAt_def ms_basic split: list.splits)
next
  case (Cons x xs)
  then show ?thesis
    by (simp add: test_def matchAt_def search_Bol_later ms_basic split: list.splits)
qed

lemma test_separatorSegment:
  "test rxSeparatorSegment seg = dashesThenEnd (dropColon (dropWhile isWhitespace seg))"
  by (simp only: rxSeparatorSegment_def test_Bol accepts_body) simp

subsection \<open>Ignoring the surrounding white space\<close>

lemma trim_trimEnd: "trim s = trimEnd (dropWhile isWhitespace s)"
  by (simp add: trim_def trimEnd_def)

lemma trimEnd_Nil: "(trimEnd s = []) = (dropWhile isWhitespace s = [])"
  by (simp add: trimEnd_def dropWhile_eq_Nil_conv)

lemma trimEnd_Cons:
  "trimEnd (x # xs) = (if (\<forall>y \<in> set xs. isWhitespace y) \<and> isWhitespace x then [] else x # trimEnd xs)"
  by (simp add: trimEnd_def dropWhile_append)

lemma trimEnd_dropColon: "trimEnd (dropColon s) = dropColon (trimEnd s)"
proof (cases s)
  case Nil
  then show ?thesis by (simp add: dropColon_def trimEnd_def)
next
  case (Cons x xs)
  then show ?thesis by (auto simp: dropColon_def trimEnd_Cons)
qed

lemma trimEnd_dropDashes:
  "trimEnd (dropWhile (\<lambda>y. y = dash) s) = dropWhile (\<lambda>y. y = dash) (trimEnd s)"
proof (induction s)
  case Nil
  show ?case by (simp add: trimEnd_def)
next
  case (Cons x xs)
  show ?case
  proof (cases "x = dash")
    case True
    then show ?thesis using Cons by (simp add: trimEnd_Cons)
  next
    case False
    then show ?thesis by (simp add: trimEnd_Cons)
  qed
qed

lemma dashesThenEnd_trimmed:
  "dashesThenEnd (dropColon s) = separatorSegment (trimEnd s)"
proof -
  have sep: "separatorSegment (trimEnd s) =
      (case trimEnd (dropColon s) of
         [] \<Rightarrow> False
       | d # ds \<Rightarrow> d = dash \<and> dropColon (dropWhile (\<lambda>c. c = dash) ds) = [])"
    by (simp add: separatorSegment_def trimEnd_dropColon)
  show ?thesis
  proof (cases "dropColon s")
    case Nil
    then have "trimEnd (dropColon s) = []" by (simp add: trimEnd_def)
    then have "\<not> separatorSegment (trimEnd s)" by (simp only: sep) simp
    then show ?thesis using Nil by (simp add: dashesThenEnd_def)
  next
    case (Cons x xs)
    show ?thesis
    proof (cases "x = dash")
      case True
      have "trimEnd (dropColon s) = dash # trimEnd xs"
        using Cons True by (simp add: trimEnd_Cons)
      then have "separatorSegment (trimEnd s)
          = (dropColon (dropWhile (\<lambda>c. c = dash) (trimEnd xs)) = [])"
        by (simp only: sep) simp
      also have "\<dots> = (trimEnd (dropColon (dropWhile (\<lambda>c. c = dash) xs)) = [])"
        by (simp only: trimEnd_dropColon trimEnd_dropDashes)
      also have "\<dots> = (dropWhile isWhitespace (dropColon (dropWhile (\<lambda>c. c = dash) xs)) = [])"
        by (rule trimEnd_Nil)
      finally show ?thesis using Cons True by (simp add: dashesThenEnd_def)
    next
      case False
      have "trimEnd (dropColon s) = [] \<or> trimEnd (dropColon s) = x # trimEnd xs"
        using Cons by (simp add: trimEnd_Cons)
      then have "\<not> separatorSegment (trimEnd s)"
        using False by (simp only: sep) auto
      then show ?thesis using Cons False by (simp add: dashesThenEnd_def)
    qed
  qed
qed

lemma test_separatorSegment_spec:
  "test rxSeparatorSegment seg = separatorSegment (trim seg)"
  by (simp only: test_separatorSegment dashesThenEnd_trimmed trim_trimEnd)

lemma separatorSegment_has_dash: "separatorSegment s \<Longrightarrow> dash \<in> set s"
  by (cases s) (auto simp: separatorSegment_def dropColon_def split: list.splits if_splits)

lemma specSeparatorLine_has_dash:
  "specSeparatorLine line \<Longrightarrow> str_includes dash (trim line)"
proof -
  assume a: "specSeparatorLine line"
  let ?segs = "split_str pipe (stripEdgePipes (trim line))"
  obtain seg segs where s: "?segs = seg # segs"
    using split_str_nonempty [of pipe "stripEdgePipes (trim line)"] by (cases ?segs) auto
  then have "separatorSegment (trim seg)"
    using a by (simp add: specSeparatorLine_def Let_def)
  then have "dash \<in> set (trim seg)" by (rule separatorSegment_has_dash)
  then have "dash \<in> set seg" using set_trim [of seg] by blast
  moreover have "seg \<in> set ?segs" using s by simp
  ultimately have "dash \<in> set (stripEdgePipes (trim line))"
    using set_split_str [of seg pipe "stripEdgePipes (trim line)"] by blast
  then show ?thesis using set_stripEdgePipes [of "trim line"] by (auto simp: str_includes_def)
qed

subsection \<open>The separator line\<close>

text \<open>
  Claim C3 as stated fails: the line \<^verbatim>\<open>---\<close> has no pipe character; stripped and split
  it is the one segment \<^verbatim>\<open>---\<close>, which fits the pattern, but the scanner does not take
  it for a separator line.
\<close>

theorem dashes_without_pipe_rejected:
  "specSeparatorLine ex_dashes \<and> \<not> isSeparatorLine ex_dashes"
  by code_simp

text \<open>
  Claim C3, amended.  For every line of text, the grid scanner classifies it as a valid
  separator line if and only if the trimmed line contains a pipe character and, after
  stripping one optional leading and one optional trailing pipe from the trimmed line,
  splitting on the pipe yields at least one segment and every segment, ignoring
  surrounding white space, is an optional colon, one or more dashes and an optional
  colon.
\<close>

theorem isSeparatorLine_iff:
  "isSeparatorLine line = (str_includes pipe (trim line) \<and> specSeparatorLine line)"
proof -
  let ?segs = "split_str pipe (stripEdgePipes (trim line))"
  have tests: "test rxSeparatorSegment = (\<lambda>seg. separatorSegment (trim seg))"
    by (rule ext) (rule test_separatorSegment_spec)
  have "isSeparatorLine line
      = (str_includes dash (trim line) \<and> str_includes pipe (trim line)
          \<and> 0 < length ?segs \<and> list_all (test rxSeparatorSegment) ?segs)"
    unfolding isSeparatorLine_def Let_def replaceAll_edgePipes by (cases "str_includes dash (trim line)"; cases "str_includes pipe (trim line)"; simp)
  also have "\<dots> = (str_includes dash (trim line) \<and> str_includes pipe (trim line)
          \<and> 0 < length ?segs \<and> list_all (\<lambda>seg. separatorSegment (trim seg)) ?segs)"
    by (simp only: tests)
  also have "\<dots> = (str_includes dash (trim line) \<and> str_includes pipe (trim line)
          \<and> specSeparatorLine line)"
    by (simp add: specSeparatorLine_def Let_def Suc_le_eq)
  finally show ?thesis using specSeparatorLine_has_dash [of line] by blast
qed

theorem isSeparatorLine_iff_witness:
  "str_includes pipe (trim ex_separator) \<and> specSeparatorLine ex_separator
   \<and> isSeparatorLine ex_separator"
proof -
  have h: "str_includes pipe (trim ex_separator) \<and> specSeparatorLine ex_separator"
    by code_simp
  then show ?thesis using isSeparatorLine_iff [of ex_separator] by blast
qed

end
